theory Spec2Isabelle
  imports Complex_Main "HOL-Library.AList" "HOL-Library.Multiset" "HOL-Library.Log_Nat"
begin

section \<open>Python values, exceptions and log records\<close>

text \<open>
  The exceptions that the two modules can raise.  A Python function that may raise
  returns \<open>error + 'a\<close> with \<open>Inl\<close> for the exception.  A method that mutates its
  object returns the updated object; on \<open>Inl\<close> the object is as it was before
  the call, since these methods raise before their first assignment.  The exception is
  \<open>create_from_source\<close>, which can raise after it has assigned and therefore returns
  the exception, if any, together with the object as it leaves it.
\<close>

datatype error =
    ValueError
  | AttributeError
  | TypeError
  | KeyError string
  | IOError
  | AssertionError
  | ZeroDivisionError
  | OverflowError

text \<open>
  Values of command-line arguments and of configuration entries.  Floats are carried
  around but never computed with, so their representation is a parameter.
\<close>

datatype 'f pyval = PyNone | PyBool bool | PyInt int | PyFloat 'f | PyStr string

text \<open>
  Calls of the \<open>logging\<close> module append a record to a log.  A message is kept as
  its format (one constructor each) with the arguments that the methods of the inventory
  pass; the percentage in the statistics line is a float computed from the two counts of
  the line and is not kept.
\<close>

datatype level = INFO | WARNING

datatype log_msg =
    DataInventorySavedTo string
  | CantExportDataInventory
  | LabelTypeLabelRecords string string nat nat
  | LabelTypeMultipleLabels string nat
  | DisablingColorAugmentation
  | SavingBestModel
  | StartingToPredict
  | CreateDatasetReader
  | FinishedPredicting

type_synonym log = "(level \<times> log_msg) list"

section \<open>data\_inventory.py: the data model\<close>

text \<open>
  A record of the inventory is a dictionary with an entry \<open>'labels'\<close>, itself a
  dictionary from label type to the list of labels, and further entries that the
  inventory never reads (\<open>meta\<close>).  Dictionaries iterate in insertion order, which the
  statistics depend on, so they are association lists; \<open>AList.update\<close> overwrites a
  present key in place and appends a new one, as assignment to a Python dictionary does.
\<close>

record 'm data_record =
  labels :: "(string \<times> string list) list"
  meta :: 'm

type_synonym 'm inventory_dict = "(string \<times> 'm data_record) list"

text \<open>
  The object.  \<open>data_inventory\<close> is \<open>None\<close> until \<open>create_from_source\<close> ran.  The
  second attribute, \<open>label_handler\<close>, holds an object of a class that is not part of
  these sources and is read by no method; it is left out.
\<close>

record 'm DatasetInventory =
  data_inventory :: "'m inventory_dict option"

definition init :: "'m DatasetInventory" where
  "init = \<lparr>data_inventory = None\<rparr>"

text \<open>The files and the log that the methods write to.\<close>

record 'c world =
  files :: "string \<rightharpoonup> 'c"
  writable :: "string \<Rightarrow> bool"
  logged :: log

definition logging :: "level \<Rightarrow> log_msg \<Rightarrow> 'c world \<Rightarrow> 'c world" where
  "logging lv msg w = w\<lparr>logged := logged w @ [(lv, msg)]\<rparr>"

section \<open>Python numbers: floats, exact numbers, \<open>int\<close>\<close>

text \<open>
  A float is a double of IEEE 754: a rational of 53 significant bits with an exponent
  between -1074 and 971, an infinity (\<open>Infinity True\<close> is the negative one) or not a
  number.  The sign of a zero is not kept; no operation below depends on it.
\<close>

datatype pyfloat = Finite rat | Infinity bool | NaN

text \<open>
  \<open>ilog2 x\<close> is the integer part of the binary logarithm of a positive rational: the
  difference of the bit lengths of numerator and denominator, or one less.
  \<open>round_double\<close> rounds a rational to the nearest double, a tie to the even
  significand, and to an infinity from \<open>2 ^ 1024\<close> on.
\<close>

definition ilog2 :: "rat \<Rightarrow> int" where
  "ilog2 x =
     (let k = int (floorlog 2 (nat (fst (quotient_of x))))
                - int (floorlog 2 (nat (snd (quotient_of x))))
      in if 2 powi k \<le> x then k else k - 1)"

definition round_half_even :: "rat \<Rightarrow> int" where
  "round_half_even t =
     (let f = \<lfloor>t\<rfloor>; r = t - of_int f
      in if r < 1 / 2 then f else if 1 / 2 < r then f + 1 else if even f then f else f + 1)"

definition round_double :: "rat \<Rightarrow> pyfloat" where
  "round_double x =
     (if x = 0 then Finite 0
      else let e = max (ilog2 \<bar>x\<bar> - 52) (- 1074);
               y = of_int (round_half_even (\<bar>x\<bar> / 2 powi e)) * 2 powi e
           in if 2 powi 1024 \<le> y then Infinity (x < 0)
              else Finite (if x < 0 then - y else y))"

text \<open>The product of two floats, and the conversion of an integer (here a length) to a float.\<close>

fun float_mul :: "pyfloat \<Rightarrow> pyfloat \<Rightarrow> pyfloat" where
  "float_mul (Finite a) (Finite b) = round_double (a * b)"
| "float_mul (Finite a) (Infinity s) = (if a = 0 then NaN else Infinity (s \<noteq> (a < 0)))"
| "float_mul (Infinity s) (Finite b) = (if b = 0 then NaN else Infinity (s \<noteq> (b < 0)))"
| "float_mul (Infinity s) (Infinity s') = Infinity (s \<noteq> s')"
| "float_mul NaN b = NaN"
| "float_mul a NaN = NaN"

definition float_of_nat :: "nat \<Rightarrow> error + pyfloat" where
  "float_of_nat n =
     (case round_double (of_nat n) of
        Infinity s \<Rightarrow> Inl OverflowError
      | f \<Rightarrow> Inr f)"

text \<open>
  The argument \<open>p_keep\<close> is a float, or an exact number: an \<open>int\<close> or a
  \<open>fractions.Fraction\<close>.  \<open>le_one\<close> is \<open>p_keep <= 1\<close>, which is false for not a
  number; \<open>py_mul\<close> is \<open>n_total * p_keep\<close>, exact for an exact number and the rounded
  product of floats for a float; \<open>py_int\<close> is \<open>int(x)\<close>, which truncates towards zero
  and raises for an infinity and for not a number.
\<close>

datatype number = FloatNum pyfloat | ExactNum rat

definition le_one :: "number \<Rightarrow> bool" where
  "le_one p =
     (case p of
        ExactNum x \<Rightarrow> x \<le> 1
      | FloatNum (Finite x) \<Rightarrow> x \<le> 1
      | FloatNum (Infinity s) \<Rightarrow> s
      | FloatNum NaN \<Rightarrow> False)"

definition py_mul :: "nat \<Rightarrow> number \<Rightarrow> error + number" where
  "py_mul n p =
     (case p of
        ExactNum x \<Rightarrow> Inr (ExactNum (of_nat n * x))
      | FloatNum f \<Rightarrow>
          (case float_of_nat n of
             Inl e \<Rightarrow> Inl e
           | Inr fn \<Rightarrow> Inr (FloatNum (float_mul fn f))))"

definition trunc_rat :: "rat \<Rightarrow> int" where
  "trunc_rat x = (if 0 \<le> x then \<lfloor>x\<rfloor> else \<lceil>x\<rceil>)"

definition py_int :: "number \<Rightarrow> error + int" where
  "py_int p =
     (case p of
        ExactNum x \<Rightarrow> Inr (trunc_rat x)
      | FloatNum (Finite x) \<Rightarrow> Inr (trunc_rat x)
      | FloatNum (Infinity s) \<Rightarrow> Inl OverflowError
      | FloatNum NaN \<Rightarrow> Inl ValueError)"

section \<open>The standard library: \<open>random.sample\<close>\<close>

text \<open>
  \<open>random.sample(population, k)\<close> raises \<open>ValueError\<close> unless \<open>0 <= k <= n\<close> and
  otherwise draws \<open>k\<close> positions without replacement.  The draw is the pool loop of the
  library: \<open>j = randbelow(n - i); result[i] = pool[j]; pool[j] = pool[n - i - 1]\<close>.
  The generator is an explicit parameter: \<open>rng i\<close> is the raw number of draw \<open>i\<close>, reduced
  modulo the size of the live part of the pool.
\<close>

fun sample_loop :: "(nat \<Rightarrow> nat) \<Rightarrow> nat \<Rightarrow> nat \<Rightarrow> 'a list \<Rightarrow> 'a list" where
  "sample_loop rng i 0 pool = []"
| "sample_loop rng i (Suc k) pool =
     (if pool = [] then []
      else let j = rng i mod length pool
           in pool ! j # sample_loop rng (Suc i) k (butlast (pool[j := last pool])))"

definition random_sample :: "(nat \<Rightarrow> nat) \<Rightarrow> 'a list \<Rightarrow> int \<Rightarrow> error + 'a list" where
  "random_sample rng population k =
     (if k < 0 \<or> int (length population) < k then Inl ValueError
      else Inr (sample_loop rng 0 (nat k) population))"

section \<open>data\_inventory.py: the methods\<close>

text \<open>The loop \<open>for id in choices: new_data_inv[id] = self.data_inventory[id]\<close>.\<close>

fun copy_choices ::
  "'m inventory_dict \<Rightarrow> string list \<Rightarrow> 'm inventory_dict \<Rightarrow> error + 'm inventory_dict" where
  "copy_choices d [] new_data_inv = Inr new_data_inv"
| "copy_choices d (i # rest) new_data_inv =
     (case map_of d i of
        None \<Rightarrow> Inl (KeyError i)
      | Some r \<Rightarrow> copy_choices d rest (AList.update i r new_data_inv))"

text \<open>\<open>n_choices = int(n_total * p_keep)\<close>.\<close>

definition n_choices :: "nat \<Rightarrow> number \<Rightarrow> error + int" where
  "n_choices n_total p_keep =
     (case py_mul n_total p_keep of
        Inl e \<Rightarrow> Inl e
      | Inr x \<Rightarrow> py_int x)"

definition randomly_remove_samples_to_percent ::
  "(nat \<Rightarrow> nat) \<Rightarrow> 'm DatasetInventory \<Rightarrow> number \<Rightarrow> error + 'm DatasetInventory" where
  "randomly_remove_samples_to_percent rng self p_keep =
     (if \<not> le_one p_keep then Inl ValueError
      else case data_inventory self of
        None \<Rightarrow> Inl AttributeError
      | Some d \<Rightarrow>
          let all_ids = map fst d;
              n_total = length all_ids
          in case n_choices n_total p_keep of
               Inl e \<Rightarrow> Inl e
             | Inr k \<Rightarrow>
                 (case random_sample rng all_ids k of
                    Inl e \<Rightarrow> Inl e
                  | Inr choices \<Rightarrow>
                      (case copy_choices d choices [] of
                         Inl e \<Rightarrow> Inl e
                       | Inr new_data_inv \<Rightarrow>
                           Inr (self\<lparr>data_inventory := Some new_data_inv\<rparr>))))"

definition get_all_record_ids :: "'m DatasetInventory \<Rightarrow> error + string list" where
  "get_all_record_ids self =
     (case data_inventory self of
        None \<Rightarrow> Inl AttributeError
      | Some d \<Rightarrow> Inr (map fst d))"

definition get_record_id_data :: "'m DatasetInventory \<Rightarrow> string \<Rightarrow> error + 'm data_record" where
  "get_record_id_data self record_id =
     (case data_inventory self of
        None \<Rightarrow> Inl TypeError
      | Some d \<Rightarrow>
          (case map_of d record_id of
             None \<Rightarrow> Inl (KeyError record_id)
           | Some r \<Rightarrow> Inr r))"

definition get_number_of_records :: "'m DatasetInventory \<Rightarrow> error + nat" where
  "get_number_of_records self =
     (case data_inventory self of
        None \<Rightarrow> Inl AttributeError
      | Some d \<Rightarrow> Inr (length (map fst d)))"

text \<open>\<open>self.data_inventory.pop(id_to_remove, None)\<close>: the default makes a missing key no error.\<close>

definition remove_record :: "'m DatasetInventory \<Rightarrow> string \<Rightarrow> error + 'm DatasetInventory" where
  "remove_record self id_to_remove =
     (case data_inventory self of
        None \<Rightarrow> Inl AttributeError
      | Some d \<Rightarrow> Inr (self\<lparr>data_inventory := Some (AList.delete id_to_remove d)\<rparr>))"

text \<open>
  \<open>create_from_source\<close> calls two classes that are not part of these sources; they are
  parameters.  \<open>importer\<close> stands for
  \<open>DatasetImporter().create(type, path).import_from_source()\<close>, which raises or returns
  a dictionary.  The dictionary is assigned to \<open>self.data_inventory\<close> and then handed
  to the label handler; \<open>remove_not_all_label_types_present\<close> stands for its method of
  that name and gives the exception it raises, if any, and the dictionary of the
  inventory as the call leaves it.  So an exception of the importer leaves the object as
  it was, and an exception of the label handler leaves it with a dictionary.
\<close>

definition create_from_source ::
  "('t \<Rightarrow> string \<Rightarrow> error + 'm inventory_dict) \<Rightarrow>
   ('m inventory_dict \<Rightarrow> error option \<times> 'm inventory_dict) \<Rightarrow>
   'm DatasetInventory \<Rightarrow> 't \<Rightarrow> string \<Rightarrow> error option \<times> 'm DatasetInventory" where
  "create_from_source importer remove_not_all_label_types_present self type path =
     (case importer type path of
        Inl e \<Rightarrow> (Some e, self)
      | Inr d \<Rightarrow>
          (case remove_not_all_label_types_present d of
             (raised, d') \<Rightarrow> (raised, self\<lparr>data_inventory := Some d'\<rparr>)))"

text \<open>
  \<open>export_to_json\<close>: \<open>open(json_path, 'w')\<close> raises when the path cannot be written;
  otherwise the file holds the dump of the dictionary, kept here as the dictionary.
\<close>

definition export_to_json ::
  "'m DatasetInventory \<Rightarrow> string \<Rightarrow> 'm inventory_dict world \<Rightarrow> error + 'm inventory_dict world" where
  "export_to_json self json_path w =
     (case data_inventory self of
        Some d \<Rightarrow>
          if writable w json_path
          then Inr (logging INFO (DataInventorySavedTo json_path) (w\<lparr>files := (files w)(json_path \<mapsto> d)\<rparr>))
          else Inl IOError
      | None \<Rightarrow> Inr (logging WARNING CantExportDataInventory w))"

text \<open>
  \<open>log_stats\<close>, first loop.  \<open>label_stats\<close> maps a label type to the dictionary of
  its label counts, \<open>label_type_stats\<close> maps it to the number of records with more than
  one label of that type.  \<open>d[k] += 1\<close> reads \<open>d[k]\<close> first and raises \<open>KeyError\<close> when
  the key is missing.
\<close>

type_synonym label_counts = "(string \<times> nat) list"

type_synonym stats = "(string \<times> label_counts) list \<times> (string \<times> nat) list"

fun count_labels :: "string list \<Rightarrow> label_counts \<Rightarrow> error + label_counts" where
  "count_labels [] ls = Inr ls"
| "count_labels (label # rest) ls =
     (let ls1 = (if label \<notin> fst ` set ls then AList.update label 0 ls else ls)
      in case map_of ls1 label of
           None \<Rightarrow> Inl (KeyError label)
         | Some c \<Rightarrow> count_labels rest (AList.update label (c + 1) ls1))"

definition count_label_type :: "string \<Rightarrow> string list \<Rightarrow> stats \<Rightarrow> error + stats" where
  "count_label_type label_type label_list st =
     (let (label_stats, label_type_stats) =
            (if label_type \<notin> fst ` set (fst st)
             then (AList.update label_type [] (fst st), AList.update label_type 0 (snd st))
             else st)
      in case (if length label_list > 1
               then (case map_of label_type_stats label_type of
                       None \<Rightarrow> Inl (KeyError label_type)
                     | Some c \<Rightarrow> Inr (AList.update label_type (c + 1) label_type_stats))
               else Inr label_type_stats) of
           Inl e \<Rightarrow> Inl e
         | Inr label_type_stats' \<Rightarrow>
             if label_list = [] then Inr (label_stats, label_type_stats')
             else (case map_of label_stats label_type of
                     None \<Rightarrow> Inl (KeyError label_type)
                   | Some ls \<Rightarrow>
                       (case count_labels label_list ls of
                          Inl e \<Rightarrow> Inl e
                        | Inr ls' \<Rightarrow>
                            Inr (AList.update label_type ls' label_stats, label_type_stats'))))"

fun count_record :: "(string \<times> string list) list \<Rightarrow> stats \<Rightarrow> error + stats" where
  "count_record [] st = Inr st"
| "count_record ((label_type, label_list) # rest) st =
     (case count_label_type label_type label_list st of
        Inl e \<Rightarrow> Inl e
      | Inr st' \<Rightarrow> count_record rest st')"

fun count_records :: "'m inventory_dict \<Rightarrow> stats \<Rightarrow> error + stats" where
  "count_records [] st = Inr st"
| "count_records ((k, v) # rest) st =
     (case count_record (labels v) st of
        Inl e \<Rightarrow> Inl e
      | Inr st' \<Rightarrow> count_records rest st')"

text \<open>
  \<open>log_stats\<close>, second loop.  \<open>sorted(xs, reverse=True, key=f)\<close> is stable: the library
  reverses the list, sorts it stably in ascending order and reverses the result.
  \<open>sort_key\<close> is the stable insertion sort of the HOL library.  The percentage divides
  by \<open>total_counts\<close>, so a line for a total of zero raises.
\<close>

definition sorted_reverse :: "('a \<Rightarrow> 'k::linorder) \<Rightarrow> 'a list \<Rightarrow> 'a list" where
  "sorted_reverse key xs = rev (sort_key key (rev xs))"

definition log_label_type :: "string \<Rightarrow> label_counts \<Rightarrow> error + log" where
  "log_label_type label_type labels_counts =
     (let label_list = map fst labels_counts;
          count_list = map snd labels_counts;
          total_counts = sum_list count_list;
          sort_index = sorted_reverse (\<lambda>k. count_list ! k) [0..<length count_list]
      in if sort_index \<noteq> [] \<and> total_counts = 0 then Inl ZeroDivisionError
         else Inr (map (\<lambda>idx. (INFO, LabelTypeLabelRecords label_type (label_list ! idx)
                                        (count_list ! idx) total_counts)) sort_index))"

fun log_label_stats :: "(string \<times> label_counts) list \<Rightarrow> error + log" where
  "log_label_stats [] = Inr []"
| "log_label_stats ((label_type, labels_counts) # rest) =
     (case log_label_type label_type labels_counts of
        Inl e \<Rightarrow> Inl e
      | Inr lines \<Rightarrow>
          (case log_label_stats rest of
             Inl e \<Rightarrow> Inl e
           | Inr lines' \<Rightarrow> Inr (lines @ lines')))"

definition log_label_type_stats :: "(string \<times> nat) list \<Rightarrow> log" where
  "log_label_type_stats label_type_stats =
     map (\<lambda>(k, v). (INFO, LabelTypeMultipleLabels k v)) label_type_stats"

text \<open>The method returns nothing; the model returns the records it logs, in order.\<close>

definition log_stats :: "'m DatasetInventory \<Rightarrow> error + log" where
  "log_stats self =
     (case data_inventory self of
        None \<Rightarrow> Inl AttributeError
      | Some d \<Rightarrow>
          (case count_records d ([], []) of
             Inl e \<Rightarrow> Inl e
           | Inr (label_stats, label_type_stats) \<Rightarrow>
               (case log_label_stats label_stats of
                  Inl e \<Rightarrow> Inl e
                | Inr lines \<Rightarrow> Inr (lines @ log_label_type_stats label_type_stats))))"

section \<open>train.py: the image-processing configuration\<close>

text \<open>
  \<open>config.yaml\<close> is not part of these sources, so the loaded configuration is a
  parameter: \<open>cfg_image_processing\<close> is \<open>config.cfg['image_processing']\<close> and
  \<open>cfg_models\<close> maps the name of a model to the \<open>'image_processing'\<close> section of that
  model.  \<open>args\<close> is the dictionary of the parsed command line, in which an option that
  was not given has the value \<open>None\<close>.  Their order of iteration is never used, so
  these dictionaries are maps, and \<open>{**a, **b}\<close> is \<open>a ++ b\<close>.
\<close>

type_synonym 'f dict = "string \<rightharpoonup> 'f pyval"

record 'f cfg =
  cfg_image_processing :: "'f dict"
  cfg_models :: "string \<rightharpoonup> 'f dict"

definition to_overwrite :: "string list" where
  "to_overwrite =
     [''color_augmentation'', ''preserve_aspect_ratio'',
      ''crop_factor'', ''zoom_factor'', ''rotate_by_angle'',
      ''randomly_flip_horizontally'', ''image_choice_for_sets'',
      ''output_width'', ''output_height'']"

fun overwrite_parameters :: "string list \<Rightarrow> 'f dict \<Rightarrow> 'f dict \<Rightarrow> error + 'f dict" where
  "overwrite_parameters [] args image_processing = Inr image_processing"
| "overwrite_parameters (overwrite # rest) args image_processing =
     (case args overwrite of
        None \<Rightarrow> Inl (KeyError overwrite)
      | Some v \<Rightarrow>
          if v \<noteq> PyNone
          then overwrite_parameters rest args (image_processing(overwrite \<mapsto> v))
          else overwrite_parameters rest args image_processing)"

text \<open>Lines 285 to 304 of \<open>main\<close>: the assertion on the model and the merge.\<close>

definition merge_image_processing :: "'f cfg \<Rightarrow> 'f dict \<Rightarrow> error + 'f dict" where
  "merge_image_processing config args =
     (case args ''model'' of
        None \<Rightarrow> Inl (KeyError ''model'')
      | Some (PyStr name) \<Rightarrow>
          (case cfg_models config name of
             None \<Rightarrow> Inl AssertionError
           | Some image_processing_model \<Rightarrow>
               (case overwrite_parameters to_overwrite args (cfg_image_processing config) of
                  Inl e \<Rightarrow> Inl e
                | Inr image_processing \<Rightarrow> Inr (image_processing_model ++ image_processing)))
      | Some _ \<Rightarrow> Inl AssertionError)"

text \<open>Lines 306 to 312: the result is the configuration and the records logged.\<close>

definition disable_color_augmentation :: "'f dict \<Rightarrow> error + 'f dict \<times> log" where
  "disable_color_augmentation image_processing =
     (case image_processing ''image_choice_for_sets'' of
        None \<Rightarrow> Inl (KeyError ''image_choice_for_sets'')
      | Some choice \<Rightarrow>
          if choice = PyStr ''grayscale_stacking''
          then (case image_processing ''color_augmentation'' of
                  None \<Rightarrow> Inl (KeyError ''color_augmentation'')
                | Some aug \<Rightarrow>
                    if aug \<noteq> PyNone
                    then Inr (image_processing(''color_augmentation'' \<mapsto> PyNone),
                              [(INFO, DisablingColorAugmentation)])
                    else Inr (image_processing, []))
          else Inr (image_processing, []))"

definition configure :: "'f cfg \<Rightarrow> 'f dict \<Rightarrow> error + 'f dict \<times> log" where
  "configure config args =
     (case merge_image_processing config args of
        Inl e \<Rightarrow> Inl e
      | Inr image_processing \<Rightarrow> disable_color_augmentation image_processing)"

section \<open>train.py: saving the best model and predicting on the test data\<close>

text \<open>
  Lines 563 to 620 of \<open>main\<close>.  A stage works on the files and the log and may raise; the
  files it wrote before raising stay, so a stage returns the exception, if any, together
  with the world it left.  The functions of other modules are parameters:
  \<open>copy_models_and_config_files\<close> (the call with its arguments),
  \<open>find_tfr_files_pattern_subdir\<close> (lines 580 to 589) and \<open>predict_from_dataset\<close>
  (lines 591 to 617: the reader, the predictor and the prediction).
\<close>

type_synonym 'c stage = "'c world \<Rightarrow> error option \<times> 'c world"

definition py_len :: "'f pyval \<Rightarrow> error + nat" where
  "py_len v = (case v of PyStr s \<Rightarrow> Inr (length s) | _ \<Rightarrow> Inl TypeError)"

definition predict_and_export :: "'c stage \<Rightarrow> 'c stage \<Rightarrow> 'c stage" where
  "predict_and_export find_tfr_files_pattern_subdir predict_from_dataset w =
     (case find_tfr_files_pattern_subdir (logging INFO StartingToPredict w) of
        (Some e, w1) \<Rightarrow> (Some e, w1)
      | (None, w1) \<Rightarrow>
          (case predict_from_dataset (logging INFO CreateDatasetReader w1) of
             (Some e, w2) \<Rightarrow> (Some e, w2)
           | (None, w2) \<Rightarrow> (None, logging INFO FinishedPredicting w2)))"

definition save_best_model_and_predict ::
  "'c stage \<Rightarrow> 'c stage \<Rightarrow> 'c stage \<Rightarrow> 'f dict \<Rightarrow> 'c stage" where
  "save_best_model_and_predict copy_models_and_config_files
       find_tfr_files_pattern_subdir predict_from_dataset args w =
     (case copy_models_and_config_files (logging INFO SavingBestModel w) of
        (Some e, w1) \<Rightarrow> (Some e, w1)
      | (None, w1) \<Rightarrow>
          (case args ''test_tfr_path'' of
             None \<Rightarrow> (Some (KeyError ''test_tfr_path''), w1)
           | Some test_tfr_path \<Rightarrow>
               (case py_len test_tfr_path of
                  Inl e \<Rightarrow> (Some e, w1)
                | Inr n \<Rightarrow>
                    if n > 0
                    then predict_and_export find_tfr_files_pattern_subdir predict_from_dataset w1
                    else (None, w1))))"

text \<open>
  The value that \<open>argparse\<close> gives \<open>args['test_tfr_path']\<close>: the option is declared with
  \<open>type=str, required=False\<close> and no default, so it is \<open>None\<close> when the option is
  absent and the string given otherwise.
\<close>

definition parse_test_tfr_path :: "string option \<Rightarrow> 'f pyval" where
  "parse_test_tfr_path given = (case given of None \<Rightarrow> PyNone | Some s \<Rightarrow> PyStr s)"

section \<open>The layers of the configuration\<close>

text \<open>
  The values that the command line overrides: the entries of \<open>args\<close> for the keys of a
  list that are not \<open>None\<close>.  This is the layer of user overrides as a map, against
  which the loop of \<open>main\<close> is compared.
\<close>

definition user_overrides :: "string list \<Rightarrow> 'f dict \<Rightarrow> 'f dict" where
  "user_overrides ks args k =
     (if k \<in> set ks
      then (case args k of None \<Rightarrow> None | Some v \<Rightarrow> if v \<noteq> PyNone then Some v else None)
      else None)"

text \<open>The value of one key after the merge.\<close>

definition effective_value :: "'f cfg \<Rightarrow> 'f dict \<Rightarrow> string \<Rightarrow> error + 'f pyval option" where
  "effective_value config args k =
     (case merge_image_processing config args of Inl e \<Rightarrow> Inl e | Inr m \<Rightarrow> Inr (m k))"

section \<open>The label statistics: the loops as folds, and readers of the log\<close>

text \<open>
  The first loop of \<open>log_stats\<close> as folds, for the proofs: \<open>bump\<close> is one round of
  the loop over the labels, \<open>tally\<close> one round of the loop over the label types of a
  record, and \<open>entries\<close> lists the pairs of label type and label list of all records
  in the order in which the two outer loops visit them.
\<close>

definition bump :: "string \<Rightarrow> label_counts \<Rightarrow> label_counts" where
  "bump label ls = AList.update label (case map_of ls label of None \<Rightarrow> 1 | Some c \<Rightarrow> c + 1) ls"

definition tally :: "string \<times> string list \<Rightarrow> stats \<Rightarrow> stats" where
  "tally e st =
     (AList.update (fst e)
        (fold bump (snd e) (case map_of (fst st) (fst e) of None \<Rightarrow> [] | Some ls \<Rightarrow> ls)) (fst st),
      AList.update (fst e)
        ((case map_of (snd st) (fst e) of None \<Rightarrow> 0 | Some c \<Rightarrow> c)
           + (if length (snd e) > 1 then 1 else 0)) (snd st))"

definition entries :: "'m inventory_dict \<Rightarrow> (string \<times> string list) list" where
  "entries d = concat (map (\<lambda>e. labels (snd e)) d)"

text \<open>
  The labels of one label type, in the order in which the loops meet them, and the same
  list without repetitions, each label at the place of its first occurrence, paired with
  the number of its occurrences.
\<close>

definition type_labels :: "(string \<times> string list) list \<Rightarrow> string \<Rightarrow> string list" where
  "type_labels es lt = concat (map snd (filter (\<lambda>e. fst e = lt) es))"

definition label_values :: "'m inventory_dict \<Rightarrow> string \<Rightarrow> string list" where
  "label_values d lt = type_labels (entries d) lt"

definition first_seen :: "'a list \<Rightarrow> 'a list" where
  "first_seen xs = rev (remdups (rev xs))"

definition first_seen_counts :: "string list \<Rightarrow> label_counts" where
  "first_seen_counts labs = map (\<lambda>l. (l, count_list labs l)) (first_seen labs)"

text \<open>
  Counting records: the entries of a label type with more than one label, the records
  whose list for the type has more than one label, and the records that carry the type.
\<close>

definition n_multi_entries :: "'m inventory_dict \<Rightarrow> string \<Rightarrow> nat" where
  "n_multi_entries d lt = length (filter (\<lambda>e. fst e = lt \<and> 1 < length (snd e)) (entries d))"

definition multi_label :: "'m data_record \<Rightarrow> string \<Rightarrow> bool" where
  "multi_label v lt = (case map_of (labels v) lt of None \<Rightarrow> False | Some ll \<Rightarrow> 1 < length ll)"

definition n_multi_records :: "'m inventory_dict \<Rightarrow> string \<Rightarrow> nat" where
  "n_multi_records d lt = length (filter (\<lambda>r. multi_label (snd r) lt) d)"

definition n_records_with :: "'m inventory_dict \<Rightarrow> string \<Rightarrow> nat" where
  "n_records_with d lt = length (filter (\<lambda>r. lt \<in> fst ` set (labels (snd r))) d)"

text \<open>
  The records logged for one label type, and readers of a log: the label and count of
  the statistics lines of a label type, the totals of these lines, and the counts of the
  lines on multiple labels of the type.
\<close>

definition lines_of :: "string \<Rightarrow> label_counts \<Rightarrow> log" where
  "lines_of lt inner =
     map (\<lambda>e. (INFO, LabelTypeLabelRecords lt (fst e) (snd e) (sum_list (map snd inner))))
       (sorted_reverse snd inner)"

definition label_line :: "string \<Rightarrow> level \<times> log_msg \<Rightarrow> (string \<times> nat) list" where
  "label_line lt r =
     (case snd r of
        LabelTypeLabelRecords lt' l c t \<Rightarrow> if lt' = lt then [(l, c)] else []
      | _ \<Rightarrow> [])"

definition label_lines :: "string \<Rightarrow> log \<Rightarrow> (string \<times> nat) list" where
  "label_lines lt lg = concat (map (label_line lt) lg)"

definition label_total :: "string \<Rightarrow> level \<times> log_msg \<Rightarrow> nat list" where
  "label_total lt r =
     (case snd r of
        LabelTypeLabelRecords lt' l c t \<Rightarrow> if lt' = lt then [t] else []
      | _ \<Rightarrow> [])"

definition label_totals :: "string \<Rightarrow> log \<Rightarrow> nat list" where
  "label_totals lt lg = concat (map (label_total lt) lg)"

definition multi_line :: "string \<Rightarrow> level \<times> log_msg \<Rightarrow> nat list" where
  "multi_line lt r =
     (case snd r of
        LabelTypeMultipleLabels lt' n \<Rightarrow> if lt' = lt then [n] else []
      | _ \<Rightarrow> [])"

definition multi_lines :: "string \<Rightarrow> log \<Rightarrow> nat list" where
  "multi_lines lt lg = concat (map (multi_line lt) lg)"

section \<open>Sampling: the fraction to keep\<close>

text \<open>
  What the statement on sampling needs: \<open>p_keep\<close> between 0 and 1, and its value as a
  rational.
\<close>

definition unit_interval :: "number \<Rightarrow> bool" where
  "unit_interval p =
     (case p of
        ExactNum x \<Rightarrow> 0 \<le> x \<and> x \<le> 1
      | FloatNum (Finite x) \<Rightarrow> 0 \<le> x \<and> x \<le> 1
      | FloatNum (Infinity s) \<Rightarrow> False
      | FloatNum NaN \<Rightarrow> False)"

definition number_value :: "number \<Rightarrow> rat" where
  "number_value p =
     (case p of
        ExactNum x \<Rightarrow> x
      | FloatNum (Finite x) \<Rightarrow> x
      | FloatNum (Infinity s) \<Rightarrow> 0
      | FloatNum NaN \<Rightarrow> 0)"

section \<open>Example inputs\<close>

definition rec0 :: "unit data_record" where
  "rec0 = \<lparr>labels = [(''species'', [''cat''])], meta = ()\<rparr>"

definition inv1 :: "unit DatasetInventory" where
  "inv1 = \<lparr>data_inventory = Some [(''r1'', rec0)]\<rparr>"

definition d3 :: "unit inventory_dict" where
  "d3 = [(''r1'', \<lparr>labels = [(''species'', [''cat''])], meta = ()\<rparr>),
         (''r2'', \<lparr>labels = [(''species'', [''dog''])], meta = ()\<rparr>),
         (''r3'', \<lparr>labels = [(''species'', [''cat'', ''dog''])], meta = ()\<rparr>)]"

definition inv3 :: "unit DatasetInventory" where
  "inv3 = \<lparr>data_inventory = Some d3\<rparr>"

text \<open>The doubles written \<open>0.6\<close> and \<open>0.29\<close>, and an inventory of five records.\<close>

definition float_06 :: rat where
  "float_06 = 5404319552844595 / 9007199254740992"

definition float_029 :: rat where
  "float_029 = 5224175567749775 / 18014398509481984"

definition d5 :: "unit inventory_dict" where
  "d5 = [(''r1'', rec0), (''r2'', rec0), (''r3'', rec0), (''r4'', rec0), (''r5'', rec0)]"

definition inv5 :: "unit DatasetInventory" where
  "inv5 = \<lparr>data_inventory = Some d5\<rparr>"

definition w0 :: "unit inventory_dict world" where
  "w0 = \<lparr>files = Map.empty, writable = (\<lambda>p. p = ''out.json''), logged = []\<rparr>"

text \<open>
  A configuration in which the defaults and the model both set \<open>color_augmentation\<close>,
  and command lines without an override, with \<open>grayscale_stacking\<close>, and with
  \<open>grayscale_stacking\<close> together with a colour augmentation.
\<close>

definition all_none :: "'f dict" where
  "all_none = (\<lambda>k. if k \<in> set to_overwrite then Some PyNone else None)"

definition cfg1 :: "unit cfg" where
  "cfg1 = \<lparr>cfg_image_processing =
             [''color_augmentation'' \<mapsto> PyStr ''full_randomized'',
              ''image_choice_for_sets'' \<mapsto> PyStr ''random''],
           cfg_models =
             [''small_cnn'' \<mapsto> [''color_augmentation'' \<mapsto> PyStr ''little'',
                                ''output_width'' \<mapsto> PyInt 50]]\<rparr>"

definition args1 :: "unit dict" where
  "args1 = all_none(''model'' \<mapsto> PyStr ''small_cnn'')"

definition args2 :: "unit dict" where
  "args2 = args1(''image_choice_for_sets'' \<mapsto> PyStr ''grayscale_stacking'')"

definition args3 :: "unit dict" where
  "args3 = args2(''color_augmentation'' \<mapsto> PyStr ''little'')"

text \<open>
  Stages for the end of \<open>main\<close>: a copy that succeeds and a search for test files
  that raises; and the command line with or without \<open>-test_tfr_path\<close>.
\<close>

definition copy_best :: "string stage" where
  "copy_best w = (None, w\<lparr>files := (files w)(''best_model.hdf5'' \<mapsto> ''model_best'')\<rparr>)"

definition find_none :: "string stage" where
  "find_none w = (Some IOError, w)"

definition w1 :: "string world" where
  "w1 = \<lparr>files = Map.empty, writable = (\<lambda>p. True), logged = []\<rparr>"

definition args_test :: "string option \<Rightarrow> unit dict" where
  "args_test given = [''test_tfr_path'' \<mapsto> parse_test_tfr_path given]"

text \<open>
  An inventory whose statistics for \<open>kind\<close> are a: 5, b: 9, c: 9 with the labels met
  in the order a, b, c; and the logs of \<open>log_stats\<close> for it and for the inventory of
  three records above.
\<close>

definition lg3 :: log where
  "lg3 = [(INFO, LabelTypeLabelRecords ''species'' ''cat'' 2 4),
          (INFO, LabelTypeLabelRecords ''species'' ''dog'' 2 4),
          (INFO, LabelTypeMultipleLabels ''species'' 1)]"

definition rec_abc :: "unit data_record" where
  "rec_abc = \<lparr>labels = [(''kind'', [''a'', ''b'', ''c''])], meta = ()\<rparr>"

definition rec_bc :: "unit data_record" where
  "rec_bc = \<lparr>labels = [(''kind'', [''b'', ''c''])], meta = ()\<rparr>"

definition d_abc :: "unit inventory_dict" where
  "d_abc = [(''r1'', rec_abc), (''r2'', rec_abc), (''r3'', rec_abc), (''r4'', rec_abc),
            (''r5'', rec_abc), (''r6'', rec_bc), (''r7'', rec_bc), (''r8'', rec_bc),
            (''r9'', rec_bc)]"

definition inv_abc :: "unit DatasetInventory" where
  "inv_abc = \<lparr>data_inventory = Some d_abc\<rparr>"

definition lg_abc :: log where
  "lg_abc = [(INFO, LabelTypeLabelRecords ''kind'' ''b'' 9 23),
             (INFO, LabelTypeLabelRecords ''kind'' ''c'' 9 23),
             (INFO, LabelTypeLabelRecords ''kind'' ''a'' 5 23),
             (INFO, LabelTypeMultipleLabels ''kind'' 9)]"

section \<open>Removing a record\<close>

lemma delete_as_filter: "AList.delete k d = filter (\<lambda>e. fst e \<noteq> k) d"
  by (induction d) auto

text \<open>
  C7.  On a created inventory \<open>remove_record\<close> never raises.  For an id that is not a
  key the inventory is returned unchanged; for a key, the entry of that id is gone and
  every other entry, and the order of the entries, is as before.
\<close>

theorem remove_record_pop:
  assumes "data_inventory s = Some d"
  shows "remove_record s rid = Inr (s\<lparr>data_inventory := Some (AList.delete rid d)\<rparr>)
     \<and> (rid \<notin> fst ` set d \<longrightarrow> remove_record s rid = Inr s)
     \<and> map_of (AList.delete rid d) rid = None
     \<and> (\<forall>k. k \<noteq> rid \<longrightarrow> map_of (AList.delete rid d) k = map_of d k)
     \<and> AList.delete rid d = filter (\<lambda>e. fst e \<noteq> rid) d"
proof -
  have run: "remove_record s rid = Inr (s\<lparr>data_inventory := Some (AList.delete rid d)\<rparr>)"
    using assms by (simp add: remove_record_def)
  have same: "remove_record s rid = Inr s" if "rid \<notin> fst ` set d"
    using that assms by (simp add: run)
  have gone: "map_of (AList.delete rid d) rid = None"
    by (simp add: AList.delete_conv')
  have others: "\<forall>k. k \<noteq> rid \<longrightarrow> map_of (AList.delete rid d) k = map_of d k"
    by simp
  have filt: "AList.delete rid d = filter (\<lambda>e. fst e \<noteq> rid) d"
    by (rule delete_as_filter)
  from run same gone others filt show ?thesis
    by simp
qed

theorem remove_record_pop_witness:
  "remove_record inv1 ''r2'' = Inr inv1
   \<and> remove_record inv1 ''r1'' = Inr (inv1\<lparr>data_inventory := Some []\<rparr>)"
  using remove_record_pop[of inv1 "[(''r1'', rec0)]" "''r2''"]
        remove_record_pop[of inv1 "[(''r1'', rec0)]" "''r1''"]
  by (simp add: inv1_def)

section \<open>The inventory before \<open>create_from_source\<close>\<close>

text \<open>
  C10.  On the object as \<open>__init__\<close> leaves it, every method but \<open>export_to_json\<close>
  raises: the attribute is \<open>None\<close>, which has no \<open>keys\<close>, \<open>pop\<close> or \<open>items\<close> and
  cannot be subscripted (\<open>randomly_remove_samples_to_percent\<close> raises \<open>ValueError\<close>
  first when \<open>p_keep <= 1\<close> is false).  \<open>export_to_json\<close> logs a warning and returns.
\<close>

theorem never_created_raises:
  "get_all_record_ids (init :: 'm DatasetInventory) = Inl AttributeError
   \<and> get_record_id_data (init :: 'm DatasetInventory) record_id = Inl TypeError
   \<and> get_number_of_records (init :: 'm DatasetInventory) = Inl AttributeError
   \<and> remove_record (init :: 'm DatasetInventory) id_to_remove = Inl AttributeError
   \<and> randomly_remove_samples_to_percent rng (init :: 'm DatasetInventory) p_keep
       = Inl (if le_one p_keep then AttributeError else ValueError)
   \<and> log_stats (init :: 'm DatasetInventory) = Inl AttributeError
   \<and> export_to_json (init :: 'm DatasetInventory) json_path w
       = Inr (logging WARNING CantExportDataInventory w)"
  by (simp add: init_def get_all_record_ids_def get_record_id_data_def get_number_of_records_def
      remove_record_def randomly_remove_samples_to_percent_def log_stats_def export_to_json_def)

section \<open>Exporting the inventory\<close>

text \<open>
  C9.  Without a created inventory \<open>export_to_json\<close> raises nothing, writes no file
  and logs one warning.  With a created inventory and a path that can be written, the
  file at the path holds the whole dictionary and one info record is logged; when the
  path cannot be written, opening it raises.
\<close>

theorem export_to_json_cases:
  "(data_inventory s = None \<longrightarrow>
      export_to_json s json_path w =
        Inr (w\<lparr>logged := logged w @ [(WARNING, CantExportDataInventory)]\<rparr>))
   \<and> (data_inventory s = Some d \<and> writable w json_path \<longrightarrow>
      export_to_json s json_path w =
        Inr (w\<lparr>files := (files w)(json_path \<mapsto> d),
               logged := logged w @ [(INFO, DataInventorySavedTo json_path)]\<rparr>))
   \<and> (data_inventory s = Some d \<and> \<not> writable w json_path \<longrightarrow>
      export_to_json s json_path w = Inl IOError)"
  by (simp add: export_to_json_def logging_def)

theorem export_to_json_cases_witness:
  "export_to_json (init :: unit DatasetInventory) ''out.json'' w0 =
     Inr (w0\<lparr>logged := [(WARNING, CantExportDataInventory)]\<rparr>)
   \<and> export_to_json inv1 ''out.json'' w0 =
     Inr (w0\<lparr>files := [''out.json'' \<mapsto> [(''r1'', rec0)]],
            logged := [(INFO, DataInventorySavedTo ''out.json'')]\<rparr>)
   \<and> export_to_json inv1 ''ro.json'' w0 = Inl IOError"
  using export_to_json_cases[of "init :: unit DatasetInventory" "''out.json''" w0 "[]"]
        export_to_json_cases[of inv1 "''out.json''" w0 "[(''r1'', rec0)]"]
        export_to_json_cases[of inv1 "''ro.json''" w0 "[(''r1'', rec0)]"]
  by (simp add: init_def inv1_def w0_def)

section \<open>Rounding to a double\<close>

text \<open>
  \<open>ilog2\<close> is the integer part of the binary logarithm, so \<open>round_double\<close> rounds at
  the exponent of the argument.
\<close>

lemma floorlog_rat_bounds:
  assumes "0 < a"
  shows "(2::rat) ^ (floorlog 2 (nat a) - 1) \<le> of_int a" and "of_int a < (2::rat) ^ floorlog 2 (nat a)"
    and "0 < floorlog 2 (nat a)"
proof -
  have pos: "0 < nat a" using assms by simp
  from floorlog_bounds[OF pos, of 2]
  have lo: "2 ^ (floorlog 2 (nat a) - 1) \<le> nat a" and hi: "nat a < 2 ^ floorlog 2 (nat a)"
    by simp_all
  have "(2::rat) ^ (floorlog 2 (nat a) - 1) = of_nat (2 ^ (floorlog 2 (nat a) - 1))" by simp
  also have "\<dots> \<le> of_nat (nat a)" using lo by (simp only: of_nat_le_iff)
  also have "\<dots> = of_int a" using assms by simp
  finally show "(2::rat) ^ (floorlog 2 (nat a) - 1) \<le> of_int a" .
  have "(of_int a :: rat) = of_nat (nat a)" using assms by simp
  also have "\<dots> < of_nat (2 ^ floorlog 2 (nat a))" using hi by (simp only: of_nat_less_iff)
  also have "\<dots> = (2::rat) ^ floorlog 2 (nat a)" by simp
  finally show "of_int a < (2::rat) ^ floorlog 2 (nat a)" .
  show "0 < floorlog 2 (nat a)"
    using pos by (simp add: floorlog_def)
qed

lemma ilog2_bounds:
  assumes "0 < x"
  shows "2 powi (ilog2 x) \<le> x" and "x < 2 powi (ilog2 x + 1)"
proof -
  obtain a b where q: "quotient_of x = (a, b)" by (cases "quotient_of x")
  have b: "0 < b" by (rule quotient_of_denom_pos[OF q])
  have x: "x = of_int a / of_int b" by (rule quotient_of_div[OF q])
  have a: "0 < a"
    using assms b unfolding x by (simp add: zero_less_divide_iff)
  define la where "la = floorlog 2 (nat a)"
  define lb where "lb = floorlog 2 (nat b)"
  define k where "k = int la - int lb"
  note A = floorlog_rat_bounds[OF a, folded la_def]
  note B = floorlog_rat_bounds[OF b, folded lb_def]
  have bpos: "(0::rat) < of_int b" using b by simp
  have upper: "x < 2 powi (k + 1)"
  proof -
    have "x < 2 ^ la / of_int b"
      unfolding x using A(2) bpos by (simp add: divide_strict_right_mono)
    also have "\<dots> \<le> 2 ^ la / 2 ^ (lb - 1)"
      using B(1) bpos by (intro divide_left_mono mult_pos_pos) simp_all
    also have "\<dots> = (2::rat) powi (int la) / 2 powi (int (lb - 1))" by simp
    also have "\<dots> = (2::rat) powi (int la - int (lb - 1))"
      by (simp add: power_int_diff)
    also have "int la - int (lb - 1) = k + 1"
      using B(3) by (simp add: k_def)
    finally show ?thesis .
  qed
  have lower: "2 powi (k - 1) < x"
  proof -
    have "(2::rat) powi (k - 1) = 2 powi (int (la - 1) - int lb)"
      using A(3) by (simp add: k_def algebra_simps of_nat_diff)
    also have "\<dots> = (2::rat) powi (int (la - 1)) / 2 powi (int lb)"
      by (simp add: power_int_diff)
    also have "\<dots> = (2::rat) ^ (la - 1) / 2 ^ lb" by simp
    also have "\<dots> < 2 ^ (la - 1) / of_int b"
      using B(2) bpos by (intro divide_strict_left_mono) simp_all
    also have "\<dots> \<le> x"
      unfolding x using A(1) bpos by (simp add: divide_right_mono)
    finally show ?thesis .
  qed
  have il: "ilog2 x = (if 2 powi k \<le> x then k else k - 1)"
    by (simp add: ilog2_def q la_def lb_def k_def Let_def)
  show "2 powi (ilog2 x) \<le> x"
    using lower by (simp add: il)
  show "x < 2 powi (ilog2 x + 1)"
    using upper by (simp add: il)
qed

lemma ilog2_unique:
  assumes "0 < x" and "2 powi k \<le> x" and "x < 2 powi (k + 1)"
  shows "ilog2 x = k"
proof -
  have two: "(1::rat) < 2" by simp
  have "2 powi (ilog2 x) < (2::rat) powi (k + 1)"
    using ilog2_bounds(1)[OF assms(1)] assms(3) by (rule le_less_trans)
  then have "ilog2 x < k + 1"
    using power_int_increasing[of "k + 1" "ilog2 x" "2::rat"] by (cases "ilog2 x < k + 1") auto
  moreover have "2 powi k < (2::rat) powi (ilog2 x + 1)"
    using assms(2) ilog2_bounds(2)[OF assms(1)] by (rule le_less_trans)
  then have "k < ilog2 x + 1"
    using power_int_increasing[of "ilog2 x + 1" k "2::rat"] by (cases "k < ilog2 x + 1") auto
  ultimately show ?thesis by simp
qed

lemma ilog2_less:
  assumes "0 < x" and "x < 2 powi m"
  shows "ilog2 x < m"
proof -
  have "2 powi (ilog2 x) < (2::rat) powi m"
    using ilog2_bounds(1)[OF assms(1)] assms(2) by (rule le_less_trans)
  then show ?thesis
    using power_int_increasing[of m "ilog2 x" "2::rat"] by (cases "ilog2 x < m") auto
qed

lemma round_half_even_bounds: "\<lfloor>t\<rfloor> \<le> round_half_even t" "round_half_even t \<le> \<lceil>t\<rceil>"
proof -
  show "\<lfloor>t\<rfloor> \<le> round_half_even t"
    by (simp add: round_half_even_def Let_def)
  have "\<lfloor>t\<rfloor> + 1 \<le> \<lceil>t\<rceil>" if "t - of_int \<lfloor>t\<rfloor> \<noteq> 0"
  proof -
    have "of_int \<lfloor>t\<rfloor> < t" using that of_int_floor_le[of t] by linarith
    then have "\<lfloor>t\<rfloor> < \<lceil>t\<rceil>" by (simp add: less_ceiling_iff)
    then show ?thesis by simp
  qed
  moreover have "\<lfloor>t\<rfloor> \<le> \<lceil>t\<rceil>" by (rule floor_le_ceiling)
  ultimately show "round_half_even t \<le> \<lceil>t\<rceil>"
    by (auto simp: round_half_even_def Let_def)
qed

lemma round_at_between:
  assumes "e \<le> 0" and "of_int lo \<le> t" and "t \<le> of_int hi"
  shows "of_int lo \<le> of_int (round_half_even (t / 2 powi e)) * (2::rat) powi e"
    and "of_int (round_half_even (t / 2 powi e)) * (2::rat) powi e \<le> of_int hi"
proof -
  define S :: int where "S = 2 ^ nat (- e)"
  have S: "(2::rat) powi (- e) = of_int S"
    using assms(1) by (simp add: S_def power_int_def)
  have inv: "(2::rat) powi e * of_int S = 1"
    unfolding S[symmetric] by (simp add: power_int_minus)
  have pos: "(0::rat) < 2 powi e" by simp
  have Spos: "(0::rat) < of_int S" unfolding S[symmetric] by simp
  have scaled: "t / 2 powi e = t * of_int S"
    unfolding S[symmetric] by (simp add: power_int_minus divide_inverse)
  have "of_int (lo * S) \<le> t * of_int S"
    using assms(2) Spos by simp
  then have "lo * S \<le> \<lfloor>t * of_int S\<rfloor>" by (simp only: le_floor_iff)
  then have l: "lo * S \<le> round_half_even (t / 2 powi e)"
    using round_half_even_bounds(1)[of "t * of_int S"] by (simp add: scaled)
  have "t * of_int S \<le> of_int (hi * S)"
    using assms(3) Spos by simp
  then have "\<lceil>t * of_int S\<rceil> \<le> hi * S" by (simp only: ceiling_le_iff)
  then have h: "round_half_even (t / 2 powi e) \<le> hi * S"
    using round_half_even_bounds(2)[of "t * of_int S"] by (simp add: scaled)
  have "of_int lo = of_int (lo * S) * (2::rat) powi e"
    using inv by (simp add: mult.assoc mult.commute)
  also have "\<dots> \<le> of_int (round_half_even (t / 2 powi e)) * 2 powi e"
  proof -
    have "(of_int (lo * S) :: rat) \<le> of_int (round_half_even (t / 2 powi e))"
      using l by (simp only: of_int_le_iff)
    then show ?thesis using pos by (intro mult_right_mono) simp_all
  qed
  finally show "of_int lo \<le> of_int (round_half_even (t / 2 powi e)) * (2::rat) powi e" .
  have "of_int (round_half_even (t / 2 powi e)) * (2::rat) powi e \<le> of_int (hi * S) * 2 powi e"
  proof -
    have "(of_int (round_half_even (t / 2 powi e)) :: rat) \<le> of_int (hi * S)"
      using h by (simp only: of_int_le_iff)
    then show ?thesis using pos by (intro mult_right_mono) simp_all
  qed
  also have "\<dots> = of_int hi"
    using inv by (simp add: mult.assoc mult.commute)
  finally show "of_int (round_half_even (t / 2 powi e)) * (2::rat) powi e \<le> of_int hi" .
qed

lemma round_double_between:
  assumes "0 \<le> t" and "of_int lo \<le> t" and "t \<le> of_int hi" and "t < 2 ^ 53" and "hi \<le> 2 ^ 53"
  shows "\<exists>z. round_double t = Finite z \<and> of_int lo \<le> z \<and> z \<le> of_int hi"
proof (cases "t = 0")
  case True
  then show ?thesis using assms(2,3) by (simp add: round_double_def)
next
  case False
  then have pos: "0 < t" using assms(1) by simp
  define e where "e = max (ilog2 t - 52) (- 1074)"
  define y where "y = of_int (round_half_even (t / 2 powi e)) * (2::rat) powi e"
  have "t < 2 powi 53" using assms(4) by simp
  then have "ilog2 t < 53" by (rule ilog2_less[OF pos])
  then have e0: "e \<le> 0" by (simp add: e_def)
  have lo: "of_int lo \<le> y" and hi: "y \<le> of_int hi"
    unfolding y_def using round_at_between[OF e0 assms(2,3)] by simp_all
  have "(of_int hi :: rat) \<le> of_int (2 ^ 53)"
    using assms(5) by (simp only: of_int_le_iff)
  then have "(of_int hi :: rat) \<le> 2 ^ 53" by simp
  then have "y \<le> (2::rat) ^ 53" using hi by (rule order_trans[rotated])
  also have "(2::rat) ^ 53 < 2 ^ 1024" by (rule power_strict_increasing) simp_all
  finally have small: "\<not> 2 powi 1024 \<le> y" by simp
  have "round_double t = Finite y"
    using pos small by (simp add: round_double_def Let_def e_def[symmetric] y_def[symmetric] abs_of_pos)
  then show ?thesis using lo hi by blast
qed

lemma round_half_even_down:
  "of_int f \<le> t \<Longrightarrow> t < of_int f + 1 / 2 \<Longrightarrow> round_half_even t = f"
proof -
  assume a: "of_int f \<le> t" and b: "t < of_int f + 1 / 2"
  have "\<lfloor>t\<rfloor> = f" using a b by (intro floor_unique) simp_all
  then show ?thesis using b by (simp add: round_half_even_def Let_def)
qed

lemma round_half_even_up:
  "of_int f + 1 / 2 < t \<Longrightarrow> t < of_int f + 1 \<Longrightarrow> round_half_even t = f + 1"
proof -
  assume a: "of_int f + 1 / 2 < t" and b: "t < of_int f + 1"
  have "\<lfloor>t\<rfloor> = f" using a b by (intro floor_unique) simp_all
  then show ?thesis using a by (simp add: round_half_even_def Let_def)
qed

lemma round_half_even_int: "round_half_even (of_int j) = j"
  by (rule round_half_even_down) simp_all

lemma round_double_eval:
  assumes "0 < x" and "2 powi k \<le> x" and "x < 2 powi (k + 1)"
    and "e = max (k - 52) (- 1074)"
    and "round_half_even (x / 2 powi e) = m"
    and "of_int m * 2 powi e = y" and "y < 2 powi 1024"
  shows "round_double x = Finite y"
proof -
  have il: "ilog2 x = k" by (rule ilog2_unique[OF assms(1,2,3)])
  have ne: "x \<noteq> 0" "\<not> x < 0" "\<bar>x\<bar> = x" using assms(1) by simp_all
  have "round_double x =
      (let e = max (ilog2 x - 52) (- 1074);
           y = of_int (round_half_even (x / 2 powi e)) * 2 powi e
       in if 2 powi 1024 \<le> y then Infinity False else Finite y)"
    unfolding round_double_def by (simp only: ne if_False)
  also have "\<dots> = Finite y"
    using assms(7) by (simp only: il Let_def assms(4)[symmetric] assms(5) assms(6)) simp
  finally show ?thesis .
qed

lemma round_double_neg:
  assumes "0 < x" and "round_double x = Finite z"
  shows "round_double (- x) = Finite (- z)"
  using assms by (simp add: round_double_def Let_def split: if_splits)

lemma float_literal_06: "round_double (3 / 5) = Finite float_06"
proof (rule round_double_eval[where k = "- 1" and e = "- 53" and m = 5404319552844595])
  show "round_half_even (3 / 5 / 2 powi - 53) = 5404319552844595"
    by (rule round_half_even_down) simp_all
qed (simp_all add: float_06_def)

lemma product_5_06: "round_double (5 * float_06) = Finite 3"
proof (rule round_double_eval[where k = 1 and e = "- 51" and m = 6755399441055744])
  show "round_half_even (5 * float_06 / 2 powi - 51) = 6755399441055744"
    using round_half_even_up[of 6755399441055743 "5 * float_06 / 2 powi - 51"]
    by (simp add: float_06_def)
qed (simp_all add: float_06_def)

lemma floor_5_06: "\<lfloor>5 * float_06\<rfloor> = 2"
  by (rule floor_unique) (simp_all add: float_06_def)

lemma float_literal_029: "round_double (29 / 100) = Finite float_029"
proof (rule round_double_eval[where k = "- 2" and e = "- 54" and m = 5224175567749775])
  show "round_half_even (29 / 100 / 2 powi - 54) = 5224175567749775"
    using round_half_even_down[of 5224175567749775 "29 / 100 / 2 powi - 54"]
    by simp
qed (simp_all add: float_029_def)

lemma product_100_029: "round_double (100 * float_029) = Finite (8162774324609023 / 281474976710656)"
proof (rule round_double_eval[where k = 4 and e = "- 48" and m = 8162774324609023])
  show "round_half_even (100 * float_029 / 2 powi - 48) = 8162774324609023"
    using round_half_even_down[of 8162774324609023 "100 * float_029 / 2 powi - 48"]
    by (simp add: float_029_def)
qed (simp_all add: float_029_def)

lemma round_double_half: "round_double (1 / 2) = Finite (1 / 2)"
proof (rule round_double_eval[where k = "- 1" and e = "- 53" and m = 4503599627370496])
  show "round_half_even (1 / 2 / 2 powi - 53) = 4503599627370496"
    using round_half_even_int[of 4503599627370496] by simp
qed simp_all

text \<open>A length below \<open>2 ^ 53\<close> is a float as it is.\<close>

lemma float_of_nat_small:
  assumes "n < 2 ^ 53"
  shows "float_of_nat n = Inr (Finite (of_nat n))"
proof -
  have lt: "(of_nat n :: rat) < 2 ^ 53"
  proof -
    have "(of_nat n :: rat) < of_nat (2 ^ 53)" using assms by (simp only: of_nat_less_iff)
    then show ?thesis by simp
  qed
  have le: "int n \<le> 2 ^ 53" using assms by simp
  from round_double_between[of "of_nat n" "int n" "int n", OF _ _ _ lt le]
  obtain z where z: "round_double (of_nat n) = Finite z" and "of_int (int n) \<le> z" and "z \<le> of_int (int n)"
    by auto
  then have "z = of_nat n" by simp
  then show ?thesis by (simp add: float_of_nat_def z)
qed

section \<open>Sampling\<close>

lemma trunc_rat_neg_half: "trunc_rat (- (1 / 2)) = 0"
proof -
  have "\<lceil>- (1 / 2) :: rat\<rceil> = 0"
    by (rule ceiling_unique) simp_all
  then show ?thesis
    unfolding trunc_rat_def by simp
qed

lemma n_choices_neg_half: "n_choices (Suc 0) (FloatNum (Finite (- (1 / 2)))) = Inr 0"
proof -
  have one: "float_of_nat (Suc 0) = Inr (Finite 1)"
    using float_of_nat_small[of "Suc 0"] by simp
  have "round_double (- (1 / 2)) = Finite (- (1 / 2))"
    by (rule round_double_neg[OF _ round_double_half]) simp
  then show ?thesis
    by (simp add: n_choices_def py_mul_def py_int_def one trunc_rat_neg_half)
qed

lemma random_sample_none: "random_sample rng xs 0 = Inr []"
  by (simp add: random_sample_def)

text \<open>
  C2.  The guard of \<open>randomly_remove_samples_to_percent\<close> tests \<open>p_keep <= 1\<close> only.
  For the inventory of one record and the float \<open>p_keep = -0.5\<close> nothing is raised: the
  product is \<open>-0.5\<close>, the number of choices is \<open>int(-0.5) = 0\<close>, the sample is empty
  and the inventory is left empty.
\<close>

theorem sample_negative_fraction_empties:
  "randomly_remove_samples_to_percent rng inv1 (FloatNum (Finite (- 1 / 2)))
     = Inr (inv1\<lparr>data_inventory := Some []\<rparr>)"
  unfolding randomly_remove_samples_to_percent_def inv1_def
  by (simp add: le_one_def n_choices_neg_half random_sample_none)

text \<open>
  When \<open>p_keep <= 1\<close> is false the guard raises, whatever the inventory; below zero
  \<open>random.sample\<close> raises once the number of choices is negative.
\<close>

lemma sample_above_one_raises:
  "\<not> le_one p_keep \<Longrightarrow> randomly_remove_samples_to_percent rng self p_keep = Inl ValueError"
  by (simp add: randomly_remove_samples_to_percent_def)

lemma sample_negative_count_raises:
  assumes "data_inventory self = Some d" and "le_one p_keep"
    and "n_choices (length d) p_keep = Inr k" and "k < 0"
  shows "randomly_remove_samples_to_percent rng self p_keep = Inl ValueError"
  using assms by (simp add: randomly_remove_samples_to_percent_def random_sample_def)

text \<open>The pool loop draws without replacement: the sample is a sub-multiset of the pool.\<close>

lemma pool_swap_mset:
  assumes "pool \<noteq> []" and "j < length pool"
  shows "add_mset (pool ! j) (mset (butlast (pool[j := last pool]))) = mset pool"
proof -
  obtain xs l where pool: "pool = xs @ [l]"
    using assms(1) by (metis append_butlast_last_id)
  show ?thesis
  proof (cases "j = length xs")
    case True
    then show ?thesis by (simp add: pool)
  next
    case False
    then have j: "j < length xs" using assms(2) pool by simp
    have "butlast (pool[j := last pool]) = xs[j := l]"
      using j by (simp add: pool list_update_append)
    moreover have "pool ! j = xs ! j"
      using j by (simp add: pool nth_append)
    moreover have "add_mset (xs ! j) (mset (xs[j := l])) = add_mset l (mset xs)"
      using j by (simp add: mset_update)
    ultimately show ?thesis by (simp add: pool)
  qed
qed

lemma sample_loop_length:
  "k \<le> length pool \<Longrightarrow> length (sample_loop rng i k pool) = k"
proof (induction k arbitrary: i pool)
  case 0
  then show ?case by simp
next
  case (Suc k)
  then have ne: "pool \<noteq> []" by auto
  have "k \<le> length (butlast (pool[rng i mod length pool := last pool]))"
    using Suc.prems by simp
  from Suc.IH[OF this] show ?case using ne by (simp add: Let_def)
qed

lemma sample_loop_mset:
  "k \<le> length pool \<Longrightarrow> mset (sample_loop rng i k pool) \<subseteq># mset pool"
proof (induction k arbitrary: i pool)
  case 0
  then show ?case by simp
next
  case (Suc k)
  then have ne: "pool \<noteq> []" by auto
  define j where "j = rng i mod length pool"
  define pool' where "pool' = butlast (pool[j := last pool])"
  have j: "j < length pool" using ne by (simp add: j_def)
  have "k \<le> length pool'"
    using Suc.prems by (simp add: pool'_def)
  from Suc.IH[OF this]
  have ih: "mset (sample_loop rng (Suc i) k pool') \<subseteq># mset pool'" .
  have step: "sample_loop rng i (Suc k) pool = pool ! j # sample_loop rng (Suc i) k pool'"
    using ne by (simp add: Let_def j_def pool'_def)
  have "mset (sample_loop rng i (Suc k) pool) = add_mset (pool ! j) (mset (sample_loop rng (Suc i) k pool'))"
    by (simp only: step mset.simps)
  also have "\<dots> \<subseteq># add_mset (pool ! j) (mset pool')"
    using ih by (simp only: mset_subset_eq_add_mset_cancel)
  also have "add_mset (pool ! j) (mset pool') = mset pool"
    unfolding pool'_def by (rule pool_swap_mset[OF ne j])
  finally show ?case .
qed

lemma update_new_key: "k \<notin> fst ` set al \<Longrightarrow> AList.update k v al = al @ [(k, v)]"
  by (induction al) auto

lemma copy_choices_result:
  assumes "distinct choices" and "set choices \<subseteq> fst ` set d" and "set choices \<inter> fst ` set acc = {}"
  shows "copy_choices d choices acc = Inr (acc @ map (\<lambda>i. (i, the (map_of d i))) choices)"
  using assms
proof (induction choices arbitrary: acc)
  case Nil
  then show ?case by simp
next
  case (Cons c cs)
  from Cons.prems(2) obtain r where r: "map_of d c = Some r"
    by (metis list.set_intros(1) subsetD map_of_eq_None_iff not_Some_eq)
  have new: "c \<notin> fst ` set acc" using Cons.prems(3) by auto
  have upd: "AList.update c r acc = acc @ [(c, r)]" by (rule update_new_key[OF new])
  have disj: "set cs \<inter> fst ` set (acc @ [(c, r)]) = {}"
    using Cons.prems(1,3) by auto
  have "copy_choices d (c # cs) acc = copy_choices d cs (acc @ [(c, r)])"
    by (simp add: r upd)
  also have "\<dots> = Inr ((acc @ [(c, r)]) @ map (\<lambda>i. (i, the (map_of d i))) cs)"
    using Cons.prems(1,2) by (intro Cons.IH[OF _ _ disj]) auto
  finally show ?case by (simp add: r)
qed

lemma submset_distinct:
  assumes "mset xs \<subseteq># mset ys" and "distinct ys"
  shows "distinct xs \<and> set xs \<subseteq> set ys"
proof -
  from assms(1) obtain Z where Z: "mset ys = mset xs + Z"
    by (auto simp: mset_subset_eq_exists_conv)
  obtain zs where zs: "Z = mset zs"
    using ex_mset[of Z] by auto
  have "mset ys = mset (xs @ zs)" by (simp add: Z zs)
  then have "distinct (xs @ zs)"
    using assms(2) mset_eq_imp_distinct_iff by blast
  then have "distinct xs" by simp
  moreover have "set xs \<subseteq> set ys"
    using set_mset_mono[OF assms(1)] by simp
  ultimately show ?thesis by simp
qed

lemma sample_loop_distinct:
  assumes "k \<le> length pool" and "distinct pool"
  shows "distinct (sample_loop rng i k pool) \<and> set (sample_loop rng i k pool) \<subseteq> set pool"
  by (rule submset_distinct[OF sample_loop_mset[OF assms(1)] assms(2)])

text \<open>
  The number of choices for \<open>p_keep\<close> between 0 and 1 and fewer than \<open>2 ^ 53\<close>
  records: the rounded product lies between the integers next to the exact product.
\<close>

lemma n_choices_unit:
  assumes "unit_interval p" and "n < 2 ^ 53"
  shows "\<exists>k. n_choices n p = Inr k
     \<and> \<lfloor>of_nat n * number_value p\<rfloor> \<le> k \<and> k \<le> \<lceil>of_nat n * number_value p\<rceil>
     \<and> 0 \<le> k \<and> k \<le> int n
     \<and> (\<forall>x. p = ExactNum x \<longrightarrow> k = \<lfloor>of_nat n * x\<rfloor>)"
proof -
  define x where "x = number_value p"
  define y where "y = of_nat n * x"
  have x01: "0 \<le> x" "x \<le> 1"
    using assms(1) by (auto simp: unit_interval_def number_value_def x_def
        split: number.splits pyfloat.splits)
  have y0: "0 \<le> y" using x01(1) by (simp add: y_def)
  have "y \<le> of_nat n * 1"
    unfolding y_def using x01(2) by (intro mult_left_mono) simp_all
  then have yn: "y \<le> of_nat n" by simp
  have fl0: "0 \<le> \<lfloor>y\<rfloor>" using y0 by simp
  have "\<lceil>y\<rceil> \<le> \<lceil>of_nat n :: rat\<rceil>" using yn by (rule ceiling_mono)
  then have cn: "\<lceil>y\<rceil> \<le> int n" by simp
  have fc: "\<lfloor>y\<rfloor> \<le> \<lceil>y\<rceil>" by (rule floor_le_ceiling)
  show ?thesis
  proof (cases p)
    case (ExactNum q)
    then have q: "q = x" by (simp add: x_def number_value_def)
    have "n_choices n p = Inr \<lfloor>y\<rfloor>"
      using y0 by (simp add: ExactNum q n_choices_def py_mul_def py_int_def trunc_rat_def y_def)
    moreover have "\<lfloor>y\<rfloor> \<le> int n" using fc cn by (rule order_trans)
    moreover have "\<forall>x'. p = ExactNum x' \<longrightarrow> \<lfloor>y\<rfloor> = \<lfloor>of_nat n * x'\<rfloor>"
      using ExactNum q by (simp add: y_def)
    ultimately have "n_choices n p = Inr \<lfloor>y\<rfloor> \<and> \<lfloor>y\<rfloor> \<le> \<lfloor>y\<rfloor> \<and> \<lfloor>y\<rfloor> \<le> \<lceil>y\<rceil>
        \<and> 0 \<le> \<lfloor>y\<rfloor> \<and> \<lfloor>y\<rfloor> \<le> int n
        \<and> (\<forall>x'. p = ExactNum x' \<longrightarrow> \<lfloor>y\<rfloor> = \<lfloor>of_nat n * x'\<rfloor>)"
      using fl0 fc by simp
    then show ?thesis
      unfolding y_def x_def by (rule exI)
  next
    case (FloatNum f)
    then obtain q where f: "f = Finite q"
      using assms(1) by (cases f) (simp_all add: unit_interval_def)
    have q: "q = x" by (simp add: x_def number_value_def FloatNum f)
    have nlt: "(of_nat n :: rat) < 2 ^ 53"
    proof -
      have "(of_nat n :: rat) < of_nat (2 ^ 53)" using assms(2) by (simp only: of_nat_less_iff)
      then show ?thesis by simp
    qed
    have ylt: "y < 2 ^ 53" using yn nlt by (rule le_less_trans)
    have "int n \<le> 2 ^ 53" using assms(2) by simp
    with cn have chi: "\<lceil>y\<rceil> \<le> 2 ^ 53" by (rule order_trans)
    from round_double_between[OF y0 _ _ ylt chi, of "\<lfloor>y\<rfloor>"]
    obtain z where z: "round_double y = Finite z" and zl: "of_int \<lfloor>y\<rfloor> \<le> z" and zh: "z \<le> of_int \<lceil>y\<rceil>"
      by auto
    have z0: "0 \<le> z"
    proof -
      have "(0::rat) \<le> of_int \<lfloor>y\<rfloor>" using fl0 by simp
      then show ?thesis using zl by (rule order_trans)
    qed
    have run: "n_choices n p = Inr \<lfloor>z\<rfloor>"
      using z z0
      by (simp add: FloatNum f q n_choices_def py_mul_def py_int_def trunc_rat_def
          float_of_nat_small[OF assms(2)] y_def)
    have lo: "\<lfloor>y\<rfloor> \<le> \<lfloor>z\<rfloor>" using zl by (simp only: le_floor_iff)
    have "of_int \<lfloor>z\<rfloor> \<le> z" by (rule of_int_floor_le)
    then have "(of_int \<lfloor>z\<rfloor> :: rat) \<le> of_int \<lceil>y\<rceil>" using zh by (rule order_trans)
    then have hi: "\<lfloor>z\<rfloor> \<le> \<lceil>y\<rceil>" by (simp only: of_int_le_iff)
    have nonneg: "0 \<le> \<lfloor>z\<rfloor>" using z0 by simp
    have le_n: "\<lfloor>z\<rfloor> \<le> int n" using hi cn by (rule order_trans)
    have "\<forall>x'. p = ExactNum x' \<longrightarrow> \<lfloor>z\<rfloor> = \<lfloor>of_nat n * x'\<rfloor>"
      using FloatNum by simp
    then have "n_choices n p = Inr \<lfloor>z\<rfloor> \<and> \<lfloor>y\<rfloor> \<le> \<lfloor>z\<rfloor> \<and> \<lfloor>z\<rfloor> \<le> \<lceil>y\<rceil>
        \<and> 0 \<le> \<lfloor>z\<rfloor> \<and> \<lfloor>z\<rfloor> \<le> int n
        \<and> (\<forall>x'. p = ExactNum x' \<longrightarrow> \<lfloor>z\<rfloor> = \<lfloor>of_nat n * x'\<rfloor>)"
      using run lo hi nonneg le_n by simp
    then show ?thesis
      unfolding y_def x_def by (rule exI)
  qed
qed

text \<open>
  C5, as the code has it.  For a created inventory of \<open>n\<close> records (a dictionary, so
  with distinct ids; fewer than \<open>2 ^ 53\<close> of them) and \<open>p_keep\<close> between 0 and 1,
  whatever the generator draws, the method returns without an exception and leaves
  exactly \<open>int(n * p_keep)\<close> records, the product being the one that Python computes.
  This number is the floor of the exact product for an \<open>int\<close> or a \<open>Fraction\<close>; for
  a float it is the floor of the exact product or one more, never more than \<open>n\<close>.  The
  ids left are distinct, were all ids before, and each has the record it had before.
\<close>

theorem sample_to_percent:
  assumes "data_inventory s = Some d" and "distinct (map fst d)"
    and "unit_interval p" and "length d < 2 ^ 53"
  shows "\<exists>d' k. randomly_remove_samples_to_percent rng s p = Inr (s\<lparr>data_inventory := Some d'\<rparr>)
    \<and> n_choices (length d) p = Inr k
    \<and> int (length d') = k
    \<and> \<lfloor>of_nat (length d) * number_value p\<rfloor> \<le> k
    \<and> k \<le> \<lceil>of_nat (length d) * number_value p\<rceil>
    \<and> k \<le> int (length d)
    \<and> (\<forall>x. p = ExactNum x \<longrightarrow> k = \<lfloor>of_nat (length d) * x\<rfloor>)
    \<and> distinct (map fst d')
    \<and> set (map fst d') \<subseteq> set (map fst d)
    \<and> (\<forall>i\<in>set (map fst d'). map_of d' i = map_of d i)"
proof -
  from n_choices_unit[OF assms(3,4)] obtain k where k: "n_choices (length d) p = Inr k"
    and klo: "\<lfloor>of_nat (length d) * number_value p\<rfloor> \<le> k"
    and khi: "k \<le> \<lceil>of_nat (length d) * number_value p\<rceil>"
    and k0: "0 \<le> k" and kn: "k \<le> int (length d)"
    and kex: "\<forall>x. p = ExactNum x \<longrightarrow> k = \<lfloor>of_nat (length d) * x\<rfloor>"
    by blast
  define choices where "choices = sample_loop rng 0 (nat k) (map fst d)"
  define d' where "d' = map (\<lambda>i. (i, the (map_of d i))) choices"
  have p1: "le_one p"
    using assms(3) by (auto simp: unit_interval_def le_one_def split: number.splits pyfloat.splits)
  have kl: "nat k \<le> length (map fst d)" using kn by simp
  have sample: "random_sample rng (map fst d) k = Inr choices"
    using k0 kn by (simp add: random_sample_def choices_def)
  have ch: "distinct choices \<and> set choices \<subseteq> set (map fst d)"
    unfolding choices_def by (rule sample_loop_distinct[OF kl assms(2)])
  have len: "length choices = nat k"
    unfolding choices_def by (rule sample_loop_length[OF kl])
  have copy: "copy_choices d choices [] = Inr d'"
    using copy_choices_result[of choices d "[]"] ch by (simp add: d'_def)
  have run: "randomly_remove_samples_to_percent rng s p = Inr (s\<lparr>data_inventory := Some d'\<rparr>)"
    using assms(1) p1 k sample copy
    by (simp add: randomly_remove_samples_to_percent_def Let_def)
  have keys: "map fst d' = choices"
    by (simp add: d'_def comp_def)
  have size: "int (length d') = k"
    using len k0 by (simp add: d'_def)
  have same: "map_of d' i = map_of d i" if "i \<in> set choices" for i
  proof -
    from that ch have "i \<in> fst ` set d" by auto
    then obtain r where r: "map_of d i = Some r"
      by (metis map_of_eq_None_iff not_Some_eq)
    have "map_of d' i = Some (the (map_of d i))"
      using that by (simp add: d'_def map_of_map_restrict)
    then show ?thesis by (simp add: r)
  qed
  have ids: "distinct (map fst d') \<and> set (map fst d') \<subseteq> set (map fst d)
      \<and> (\<forall>i\<in>set (map fst d'). map_of d' i = map_of d i)"
    using ch same by (simp only: keys) blast
  show ?thesis
    using run k size klo khi kn kex ids by blast
qed

lemma n_choices_5_06: "n_choices 5 (FloatNum (Finite float_06)) = Inr 3"
proof -
  have five: "float_of_nat 5 = Inr (Finite 5)"
    using float_of_nat_small[of 5] by simp
  have "trunc_rat 3 = 3" by (simp add: trunc_rat_def)
  then show ?thesis
    by (simp add: n_choices_def py_mul_def py_int_def five product_5_06)
qed

lemma unit_06: "unit_interval (FloatNum (Finite float_06))"
  by (simp add: unit_interval_def float_06_def)

theorem sample_to_percent_witness:
  "\<exists>d'. randomly_remove_samples_to_percent (\<lambda>i. i) inv5 (FloatNum (Finite float_06))
            = Inr (inv5\<lparr>data_inventory := Some d'\<rparr>)
    \<and> int (length d') = 3
    \<and> distinct (map fst d')
    \<and> set (map fst d') \<subseteq> {''r1'', ''r2'', ''r3'', ''r4'', ''r5''}
    \<and> (\<forall>i\<in>set (map fst d'). map_of d' i = map_of d5 i)"
proof -
  have h1: "data_inventory inv5 = Some d5" by (simp add: inv5_def)
  have h2: "distinct (map fst d5)" by (simp add: d5_def)
  have h4: "length d5 < 2 ^ 53" by (simp add: d5_def)
  have len: "length d5 = 5" by (simp add: d5_def)
  have ks: "set (map fst d5) = {''r1'', ''r2'', ''r3'', ''r4'', ''r5''}" by (simp add: d5_def)
  from sample_to_percent[OF h1 h2 unit_06 h4, of "\<lambda>i. i"]
  obtain d' k where run: "randomly_remove_samples_to_percent (\<lambda>i. i) inv5 (FloatNum (Finite float_06))
            = Inr (inv5\<lparr>data_inventory := Some d'\<rparr>)"
    and k: "n_choices (length d5) (FloatNum (Finite float_06)) = Inr k"
    and size: "int (length d') = k"
    and ids: "distinct (map fst d')" "set (map fst d') \<subseteq> set (map fst d5)"
      "\<forall>i\<in>set (map fst d'). map_of d' i = map_of d5 i"
    by blast
  have "k = 3" using k n_choices_5_06 by (simp add: len)
  then show ?thesis
    using run size ids unfolding ks by blast
qed

lemma n_choices_100_029: "n_choices 100 (FloatNum (Finite float_029)) = Inr 28"
proof -
  have hundred: "float_of_nat 100 = Inr (Finite 100)"
    using float_of_nat_small[of 100] by simp
  have "\<lfloor>8162774324609023 / 281474976710656 :: rat\<rfloor> = 28"
    by (rule floor_unique) simp_all
  then have "trunc_rat (8162774324609023 / 281474976710656) = 28"
    by (simp add: trunc_rat_def)
  then show ?thesis
    by (simp add: n_choices_def py_mul_def py_int_def hundred product_100_029)
qed

text \<open>
  C5, as stated, fails for floats.  The float written \<open>0.6\<close> is the double nearest
  to \<open>3/5\<close>, a little below it.  With five records the exact product is a little below
  3 and its floor is 2, but the product of floats rounds to \<open>3.0\<close> and three records
  are left (here the generator draws 0 each time).  The other way round, the float written
  \<open>0.29\<close> is a little below \<open>29/100\<close>: for 100 records the product of floats is
  below 29 and the number of choices is 28, where the floor of 100 times 29/100 is 29.
\<close>

theorem sample_to_percent_counterexample:
  "round_double (3 / 5) = Finite float_06
   \<and> get_number_of_records inv5 = Inr 5
   \<and> randomly_remove_samples_to_percent (\<lambda>i. 0) inv5 (FloatNum (Finite float_06))
       = Inr (inv5\<lparr>data_inventory := Some [(''r1'', rec0), (''r5'', rec0), (''r4'', rec0)]\<rparr>)
   \<and> \<lfloor>5 * float_06\<rfloor> = 2
   \<and> round_double (29 / 100) = Finite float_029
   \<and> n_choices 100 (FloatNum (Finite float_029)) = Inr 28
   \<and> \<lfloor>(100::rat) * (29 / 100)\<rfloor> = 29"
proof -
  have exact: "\<lfloor>(100::rat) * (29 / 100)\<rfloor> = 29" by simp
  have len: "length d5 = 5" by (simp add: d5_def)
  have p1: "le_one (FloatNum (Finite float_06))" by (simp add: le_one_def float_06_def)
  have loop: "sample_loop (\<lambda>i. 0) 0 (Suc (Suc (Suc 0))) (map fst d5) = [''r1'', ''r5'', ''r4'']"
    by (simp add: d5_def)
  have range: "\<not> ((3::int) < 0 \<or> int (length (map fst d5)) < 3)"
    by (simp add: d5_def)
  have three: "nat 3 = Suc (Suc (Suc 0))"
    by (simp add: numeral_3_eq_3)
  have sample: "random_sample (\<lambda>i. 0) (map fst d5) 3 = Inr [''r1'', ''r5'', ''r4'']"
    unfolding random_sample_def using range by (simp only: if_False three loop)
  have copy: "copy_choices d5 [''r1'', ''r5'', ''r4''] []
      = Inr [(''r1'', rec0), (''r5'', rec0), (''r4'', rec0)]"
    by (simp add: d5_def)
  have run: "randomly_remove_samples_to_percent (\<lambda>i. 0) inv5 (FloatNum (Finite float_06))
       = Inr (inv5\<lparr>data_inventory := Some [(''r1'', rec0), (''r5'', rec0), (''r4'', rec0)]\<rparr>)"
    unfolding randomly_remove_samples_to_percent_def Let_def
    by (simp add: p1 inv5_def len n_choices_5_06 sample copy del: copy_choices.simps)
  have n: "get_number_of_records inv5 = Inr 5"
    by (simp add: get_number_of_records_def inv5_def d5_def)
  show ?thesis
    by (intro conjI float_literal_06 n run floor_5_06 float_literal_029 n_choices_100_029 exact)
qed

text \<open>An exact number: half of three records is one record.\<close>

lemma floor_three_halves: "\<lfloor>3 / 2 :: rat\<rfloor> = 1"
  by (rule floor_unique) simp_all

lemma n_choices_3_half: "n_choices (Suc (Suc (Suc 0))) (ExactNum (1 / 2)) = Inr 1"
proof -
  have "n_choices 3 (ExactNum (1 / 2)) = Inr 1"
    by (simp add: n_choices_def py_mul_def py_int_def trunc_rat_def floor_three_halves)
  then show ?thesis
    by (simp only: numeral_3_eq_3)
qed

lemma sample_half_of_three:
  "randomly_remove_samples_to_percent (\<lambda>i. i) inv3 (ExactNum (1 / 2))
     = Inr (inv3\<lparr>data_inventory := Some [(''r1'', \<lparr>labels = [(''species'', [''cat''])], meta = ()\<rparr>)]\<rparr>)"
proof -
  have len: "length d3 = Suc (Suc (Suc 0))" by (simp add: d3_def)
  have sample: "random_sample (\<lambda>i. i) (map fst d3) 1 = Inr [''r1'']"
    by (simp add: random_sample_def d3_def)
  have copy: "copy_choices d3 [''r1''] []
      = Inr [(''r1'', \<lparr>labels = [(''species'', [''cat''])], meta = ()\<rparr>)]"
    by (simp add: d3_def)
  show ?thesis
    unfolding randomly_remove_samples_to_percent_def Let_def
    by (simp add: le_one_def inv3_def len n_choices_3_half sample copy del: copy_choices.simps)
qed

section \<open>The label statistics\<close>

text \<open>The loops never raise \<open>KeyError\<close>: each key is read after the guard has set it.\<close>

lemma count_labels_fold: "count_labels xs ls = Inr (fold bump xs ls)"
proof (induction xs arbitrary: ls)
  case Nil
  then show ?case by simp
next
  case (Cons x xs)
  show ?case
  proof (cases "map_of ls x")
    case None
    then have notin: "x \<notin> fst ` set ls" by (simp add: map_of_eq_None_iff)
    have "count_labels (x # xs) ls = count_labels xs (AList.update x 1 (AList.update x 0 ls))"
      using notin by (simp add: AList.update_conv')
    also have "AList.update x 1 (AList.update x 0 ls) = bump x ls"
      by (simp add: bump_def None)
    finally show ?thesis by (simp add: Cons.IH)
  next
    case (Some c)
    then have isin: "x \<in> fst ` set ls" by (metis map_of_eq_None_iff option.distinct(1))
    have "count_labels (x # xs) ls = count_labels xs (AList.update x (c + 1) ls)"
      using isin Some by simp
    also have "AList.update x (c + 1) ls = bump x ls"
      by (simp add: bump_def Some)
    finally show ?thesis by (simp add: Cons.IH)
  qed
qed

lemma count_label_type_tally:
  assumes "fst ` set (fst st) = fst ` set (snd st)"
  shows "count_label_type lt ll st = Inr (tally (lt, ll) st)"
proof (cases "map_of (fst st) lt")
  case None
  then have notin: "lt \<notin> fst ` set (fst st)" by (simp add: map_of_eq_None_iff)
  then have None2: "map_of (snd st) lt = None" using assms by (simp add: map_of_eq_None_iff)
  show ?thesis
    using notin None None2
    by (cases st) (simp add: count_label_type_def tally_def AList.update_conv' count_labels_fold)
next
  case (Some ls)
  then have isin: "lt \<in> fst ` set (fst st)" by (metis map_of_eq_None_iff option.distinct(1))
  then have "lt \<in> fst ` set (snd st)" using assms by simp
  then obtain c where c: "map_of (snd st) lt = Some c"
    by (metis map_of_eq_None_iff not_Some_eq)
  have t1: "AList.update lt c (snd st) = snd st" by (rule AList.update_triv[OF c])
  have t2: "AList.update lt ls (fst st) = fst st" by (rule AList.update_triv[OF Some])
  show ?thesis
    using isin Some c t1 t2
    by (cases st) (simp add: count_label_type_def tally_def count_labels_fold)
qed

lemma tally_keys:
  "fst ` set (fst st) = fst ` set (snd st) \<Longrightarrow>
   fst ` set (fst (tally e st)) = fst ` set (snd (tally e st))"
  by (simp add: tally_def AList.dom_update)

lemma fold_tally_keys:
  "fst ` set (fst st) = fst ` set (snd st) \<Longrightarrow>
   fst ` set (fst (fold tally es st)) = fst ` set (snd (fold tally es st))"
  by (induction es arbitrary: st) (simp_all add: tally_keys)

lemma count_record_fold:
  "fst ` set (fst st) = fst ` set (snd st) \<Longrightarrow> count_record es st = Inr (fold tally es st)"
proof (induction es arbitrary: st)
  case Nil
  then show ?case by simp
next
  case (Cons e es)
  obtain lt ll where e: "e = (lt, ll)" by (cases e)
  have "count_record (e # es) st = count_record es (tally e st)"
    by (simp add: e count_label_type_tally[OF Cons.prems])
  also have "\<dots> = Inr (fold tally es (tally e st))"
    by (rule Cons.IH[OF tally_keys[OF Cons.prems]])
  finally show ?case by simp
qed

lemma count_records_fold:
  "fst ` set (fst st) = fst ` set (snd st) \<Longrightarrow>
   count_records d st = Inr (fold tally (entries d) st)"
proof (induction d arbitrary: st)
  case Nil
  then show ?case by (simp add: entries_def)
next
  case (Cons r d)
  obtain k v where r: "r = (k, v)" by (cases r)
  have "count_records (r # d) st = count_records d (fold tally (labels v) st)"
    by (simp add: r count_record_fold[OF Cons.prems])
  also have "\<dots> = Inr (fold tally (entries d) (fold tally (labels v) st))"
    by (rule Cons.IH[OF fold_tally_keys[OF Cons.prems]])
  finally show ?case by (simp add: entries_def r)
qed

lemma first_seen_snoc:
  "first_seen (xs @ [x]) = (if x \<in> set xs then first_seen xs else first_seen xs @ [x])"
  by (simp add: first_seen_def)

lemma set_first_seen: "set (first_seen xs) = set xs"
  by (simp add: first_seen_def)

lemma distinct_first_seen: "distinct (first_seen xs)"
  by (simp add: first_seen_def)

lemma update_map_keys:
  "k \<in> set ks \<Longrightarrow> distinct ks \<Longrightarrow>
   AList.update k v (map (\<lambda>l. (l, f l)) ks) = map (\<lambda>l. (l, if l = k then v else f l)) ks"
proof (induction ks)
  case Nil
  then show ?case by simp
next
  case (Cons a ks)
  show ?case
  proof (cases "a = k")
    case True
    then have "k \<notin> set ks" using Cons.prems(2) by simp
    then have "map (\<lambda>l. (l, if l = k then v else f l)) ks = map (\<lambda>l. (l, f l)) ks"
      by (intro map_cong) auto
    then show ?thesis using True by simp
  next
    case False
    then show ?thesis using Cons by simp
  qed
qed

lemma map_of_map_keys: "map_of (map (\<lambda>l. (l, f l)) ks) k = (if k \<in> set ks then Some (f k) else None)"
  by (induction ks) auto

text \<open>The counts of a label type: first occurrences in order, each with its number.\<close>

lemma fold_bump_counts:
  "fold bump xs [] = map (\<lambda>l. (l, count_list xs l)) (first_seen xs)"
proof (induction xs rule: rev_induct)
  case Nil
  then show ?case by (simp add: first_seen_def)
next
  case (snoc x xs)
  let ?old = "map (\<lambda>l. (l, count_list xs l)) (first_seen xs)"
  have step: "fold bump (xs @ [x]) [] = bump x ?old"
    by (simp add: snoc.IH)
  show ?case
  proof (cases "x \<in> set xs")
    case True
    then have look: "map_of ?old x = Some (count_list xs x)"
      by (simp add: map_of_map_keys set_first_seen)
    have "bump x ?old = AList.update x (count_list xs x + 1) ?old"
      by (simp add: bump_def look)
    also have "\<dots> = map (\<lambda>l. (l, if l = x then count_list xs x + 1 else count_list xs l)) (first_seen xs)"
      using True by (intro update_map_keys) (simp_all add: set_first_seen distinct_first_seen)
    also have "\<dots> = map (\<lambda>l. (l, count_list (xs @ [x]) l)) (first_seen xs)"
      by (intro map_cong) auto
    finally show ?thesis using True by (simp only: step first_seen_snoc if_True)
  next
    case False
    then have look: "map_of ?old x = None"
      by (simp add: map_of_map_keys set_first_seen)
    have notin: "x \<notin> fst ` set ?old"
      using False by (auto simp: set_first_seen)
    have zero: "count_list xs x = 0" using False by (simp add: count_list_0_iff)
    have "bump x ?old = AList.update x 1 ?old"
      by (simp add: bump_def look)
    also have "\<dots> = ?old @ [(x, 1)]"
      by (rule update_new_key[OF notin])
    finally have a: "bump x ?old = ?old @ [(x, 1)]" .
    have b: "?old = map (\<lambda>l. (l, count_list (xs @ [x]) l)) (first_seen xs)"
      using False by (intro map_cong) (auto simp: set_first_seen)
    have lhs: "bump x ?old = map (\<lambda>l. (l, count_list (xs @ [x]) l)) (first_seen xs) @ [(x, 1)]"
      by (simp only: b[symmetric] a)
    have rhs: "map (\<lambda>l. (l, count_list (xs @ [x]) l)) (first_seen (xs @ [x]))
        = map (\<lambda>l. (l, count_list (xs @ [x]) l)) (first_seen xs) @ [(x, 1)]"
      using False zero by (simp add: first_seen_snoc)
    show ?thesis by (simp only: step lhs rhs)
  qed
qed

lemma no_entry_filter:
  "k \<notin> fst ` set es \<Longrightarrow> filter (\<lambda>e. fst e = k) es = []"
  "k \<notin> fst ` set es \<Longrightarrow> filter (\<lambda>e. fst e = k \<and> P e) es = []"
  by (auto simp: filter_empty_conv)

lemma tally_fst_lookup:
  "map_of (fst (tally e st)) lt =
     (if fst e = lt
      then Some (fold bump (snd e) (case map_of (fst st) lt of None \<Rightarrow> [] | Some ls \<Rightarrow> ls))
      else map_of (fst st) lt)"
  by (auto simp: tally_def AList.update_conv')

lemma tally_snd_lookup:
  "map_of (snd (tally e st)) lt =
     (if fst e = lt
      then Some ((case map_of (snd st) lt of None \<Rightarrow> 0 | Some c \<Rightarrow> c)
                  + (if length (snd e) > 1 then 1 else 0))
      else map_of (snd st) lt)"
  by (auto simp: tally_def AList.update_conv')

lemma fold_tally_fst:
  "map_of (fst (fold tally es st)) lt =
     (if lt \<in> fst ` set es
      then Some (fold bump (type_labels es lt) (case map_of (fst st) lt of None \<Rightarrow> [] | Some ls \<Rightarrow> ls))
      else map_of (fst st) lt)"
proof (induction es arbitrary: st)
  case Nil
  then show ?case by simp
next
  case (Cons e es)
  show ?case
    unfolding fold_Cons comp_apply Cons.IH[of "tally e st"] tally_fst_lookup
    by (auto simp: type_labels_def no_entry_filter)
qed

lemma fold_tally_snd:
  "map_of (snd (fold tally es st)) lt =
     (if lt \<in> fst ` set es
      then Some ((case map_of (snd st) lt of None \<Rightarrow> 0 | Some c \<Rightarrow> c)
                  + length (filter (\<lambda>e. fst e = lt \<and> length (snd e) > 1) es))
      else map_of (snd st) lt)"
proof (induction es arbitrary: st)
  case Nil
  then show ?case by simp
next
  case (Cons e es)
  show ?case
    unfolding fold_Cons comp_apply Cons.IH[of "tally e st"] tally_snd_lookup
    by (auto simp: no_entry_filter)
qed

lemma fold_tally_distinct:
  "distinct (map fst (fst st)) \<Longrightarrow> distinct (map fst (fst (fold tally es st)))"
  by (induction es arbitrary: st) (simp_all add: tally_def AList.distinct_update)

lemma fold_tally_distinct2:
  "distinct (map fst (snd st)) \<Longrightarrow> distinct (map fst (snd (fold tally es st)))"
  by (induction es arbitrary: st) (simp_all add: tally_def AList.distinct_update)

lemma insort_key_cong_set:
  "(\<And>y. y \<in> insert x (set xs) \<Longrightarrow> f y = g y) \<Longrightarrow> insort_key f x xs = insort_key g x xs"
  by (induction xs) auto

lemma sort_key_cong_set:
  "(\<And>y. y \<in> set xs \<Longrightarrow> f y = g y) \<Longrightarrow> sort_key f xs = sort_key g xs"
proof (induction xs)
  case Nil
  then show ?case by simp
next
  case (Cons x xs)
  have ih: "sort_key f xs = sort_key g xs" using Cons by simp
  show ?case
    using Cons.prems by (simp add: ih) (rule insort_key_cong_set, simp)
qed

lemma insort_key_map_comm:
  "insort_key k (f x) (map f xs) = map f (insort_key (\<lambda>y. k (f y)) x xs)"
  by (induction xs) auto

lemma sort_key_map_comm: "sort_key k (map f xs) = map f (sort_key (\<lambda>y. k (f y)) xs)"
  by (induction xs) (simp_all add: insort_key_map_comm)

lemma sorted_reverse_map:
  "sorted_reverse k (map f xs) = map f (sorted_reverse (\<lambda>y. k (f y)) xs)"
  by (simp add: sorted_reverse_def rev_map sort_key_map_comm)

lemma length_sorted_reverse: "length (sorted_reverse k xs) = length xs"
  by (simp add: sorted_reverse_def)

lemma sorted_reverse_cong_set:
  "(\<And>y. y \<in> set xs \<Longrightarrow> f y = g y) \<Longrightarrow> sorted_reverse f xs = sorted_reverse g xs"
proof -
  assume eq: "\<And>y. y \<in> set xs \<Longrightarrow> f y = g y"
  have "sort_key f (rev xs) = sort_key g (rev xs)"
    by (rule sort_key_cong_set) (simp add: eq)
  then show ?thesis by (simp only: sorted_reverse_def)
qed

lemma set_sorted_reverse: "set (sorted_reverse k xs) = set xs"
  by (simp add: sorted_reverse_def)

lemma sorted_reverse_indices:
  "map (\<lambda>idx. h (map fst inner ! idx) (map snd inner ! idx))
     (sorted_reverse (\<lambda>k. map snd inner ! k) [0..<length (map snd inner)])
   = map (\<lambda>e. h (fst e) (snd e)) (sorted_reverse snd inner)"
proof -
  let ?n = "length inner"
  let ?idx = "sorted_reverse (\<lambda>k. snd (inner ! k)) [0..<?n]"
  have keys: "sorted_reverse (\<lambda>k. map snd inner ! k) [0..<length (map snd inner)] = ?idx"
    unfolding length_map by (rule sorted_reverse_cong_set) simp
  have "sorted_reverse snd inner = sorted_reverse snd (map (nth inner) [0..<?n])"
    by (simp only: map_nth)
  also have "\<dots> = map (nth inner) ?idx"
    by (rule sorted_reverse_map)
  finally have out: "sorted_reverse snd inner = map (nth inner) ?idx" .
  have "map (\<lambda>idx. h (map fst inner ! idx) (map snd inner ! idx)) ?idx
      = map (\<lambda>idx. h (fst (inner ! idx)) (snd (inner ! idx))) ?idx"
    by (rule map_cong) (simp_all add: set_sorted_reverse)
  also have "\<dots> = map (\<lambda>e. h (fst e) (snd e)) (map (nth inner) ?idx)"
    by (simp only: map_map comp_def)
  finally show ?thesis
    by (simp only: keys out)
qed

text \<open>The division never raises: a label type with a label has a positive total.\<close>

lemma log_label_type_lines:
  assumes "inner = [] \<or> 0 < sum_list (map snd inner)"
  shows "log_label_type lt inner = Inr (lines_of lt inner)"
proof -
  let ?idx = "sorted_reverse (\<lambda>k. map snd inner ! k) [0..<length (map snd inner)]"
  have no_raise: "\<not> (?idx \<noteq> [] \<and> sum_list (map snd inner) = 0)"
  proof (cases "inner = []")
    case True
    then have "?idx = []" by (simp add: sorted_reverse_def)
    then show ?thesis by blast
  next
    case False
    then have "0 < sum_list (map snd inner)" using assms by blast
    then have "sum_list (map snd inner) \<noteq> 0" by linarith
    then show ?thesis by blast
  qed
  have lines: "map (\<lambda>idx. (INFO, LabelTypeLabelRecords lt (map fst inner ! idx) (map snd inner ! idx)
                               (sum_list (map snd inner)))) ?idx
             = lines_of lt inner"
    unfolding lines_of_def
    by (rule sorted_reverse_indices[of "\<lambda>l c. (INFO, LabelTypeLabelRecords lt l c (sum_list (map snd inner)))"])
  have "log_label_type lt inner =
        (if ?idx \<noteq> [] \<and> sum_list (map snd inner) = 0 then Inl ZeroDivisionError
         else Inr (map (\<lambda>idx. (INFO, LabelTypeLabelRecords lt (map fst inner ! idx) (map snd inner ! idx)
                               (sum_list (map snd inner)))) ?idx))"
    by (simp only: log_label_type_def Let_def)
  also have "\<dots> = Inr (lines_of lt inner)"
    using no_raise by (simp only: lines if_False)
  finally show ?thesis .
qed

lemma sum_update:
  "sum_list (map snd (AList.update k v al)) + (case map_of al k of None \<Rightarrow> 0 | Some c \<Rightarrow> c)
     = sum_list (map snd al) + (v::nat)"
  by (induction al) auto

lemma sum_bump: "sum_list (map snd (bump l ls)) = sum_list (map snd ls) + 1"
  using sum_update[of l "case map_of ls l of None \<Rightarrow> 1 | Some c \<Rightarrow> c + 1" ls]
  by (cases "map_of ls l") (simp_all add: bump_def)

lemma sum_fold_bump: "sum_list (map snd (fold bump xs ls)) = sum_list (map snd ls) + length xs"
  by (induction xs arbitrary: ls) (simp_all add: sum_bump)

lemma fold_bump_loggable:
  "fold bump xs [] = [] \<or> 0 < sum_list (map snd (fold bump xs []))"
proof (cases xs)
  case Nil
  then show ?thesis by simp
next
  case (Cons x xs')
  then show ?thesis by (simp only: sum_fold_bump) simp
qed

lemma stats_entry:
  assumes "e \<in> set (fst (fold tally es ([], [])))"
  shows "snd e = fold bump (type_labels es (fst e)) []"
proof -
  let ?ls = "fst (fold tally es ([], []))"
  have "distinct (map fst ?ls)" by (rule fold_tally_distinct) simp
  then have look: "map_of ?ls (fst e) = Some (snd e)"
    using assms by (intro map_of_is_SomeI) simp_all
  then show ?thesis
    unfolding fold_tally_fst by (simp split: if_splits)
qed

lemma log_label_stats_lines:
  assumes "\<And>e. e \<in> set ls \<Longrightarrow> snd e = [] \<or> 0 < sum_list (map snd (snd e))"
  shows "log_label_stats ls = Inr (concat (map (\<lambda>e. lines_of (fst e) (snd e)) ls))"
  using assms
proof (induction ls)
  case Nil
  then show ?case by simp
next
  case (Cons e ls)
  obtain lt inner where e: "e = (lt, inner)" by (cases e)
  have one: "log_label_type lt inner = Inr (lines_of lt inner)"
    using Cons.prems[of e] by (intro log_label_type_lines) (simp add: e)
  have rest: "log_label_stats ls = Inr (concat (map (\<lambda>e. lines_of (fst e) (snd e)) ls))"
    using Cons.prems by (intro Cons.IH) simp
  show ?case by (simp add: e one rest)
qed

lemma label_lines_append: "label_lines lt (a @ b) = label_lines lt a @ label_lines lt b"
  by (simp add: label_lines_def)

lemma label_totals_append: "label_totals lt (a @ b) = label_totals lt a @ label_totals lt b"
  by (simp add: label_totals_def)

lemma multi_lines_append: "multi_lines lt (a @ b) = multi_lines lt a @ multi_lines lt b"
  by (simp add: multi_lines_def)

lemma label_lines_of:
  "label_lines lt (lines_of lt' inner) = (if lt' = lt then sorted_reverse snd inner else [])"
proof -
  have "label_lines lt (map (\<lambda>e. (INFO, LabelTypeLabelRecords lt' (fst e) (snd e) t)) xs)
          = (if lt' = lt then xs else [])" for t and xs :: "(string \<times> nat) list"
    by (induction xs) (simp_all add: label_lines_def label_line_def)
  then show ?thesis by (simp only: lines_of_def)
qed

lemma label_totals_of:
  "label_totals lt (lines_of lt' inner) =
     (if lt' = lt then replicate (length inner) (sum_list (map snd inner)) else [])"
proof -
  have "label_totals lt (map (\<lambda>e. (INFO, LabelTypeLabelRecords lt' (fst e) (snd e) t)) xs)
          = (if lt' = lt then replicate (length xs) t else [])" for t and xs :: "(string \<times> nat) list"
    by (induction xs) (simp_all add: label_totals_def label_total_def)
  then show ?thesis by (simp only: lines_of_def length_sorted_reverse)
qed

lemma multi_lines_of: "multi_lines lt (lines_of lt' inner) = []"
proof -
  have "multi_lines lt (map (\<lambda>e. (INFO, LabelTypeLabelRecords lt' (fst e) (snd e) t)) xs) = []"
    for t and xs :: "(string \<times> nat) list"
    by (induction xs) (simp_all add: multi_lines_def multi_line_def)
  then show ?thesis by (simp only: lines_of_def)
qed

lemma label_lines_multi: "label_lines lt (log_label_type_stats lts) = []"
  by (induction lts) (auto simp: log_label_type_stats_def label_lines_def label_line_def)

lemma label_totals_multi: "label_totals lt (log_label_type_stats lts) = []"
  by (induction lts) (auto simp: log_label_type_stats_def label_totals_def label_total_def)

lemma multi_lines_multi:
  "distinct (map fst lts) \<Longrightarrow>
   multi_lines lt (log_label_type_stats lts) = (case map_of lts lt of None \<Rightarrow> [] | Some c \<Rightarrow> [c])"
proof (induction lts)
  case Nil
  then show ?case by (simp add: log_label_type_stats_def multi_lines_def)
next
  case (Cons a lts)
  obtain k v where a: "a = (k, v)" by (cases a)
  have ih: "multi_lines lt (log_label_type_stats lts) = (case map_of lts lt of None \<Rightarrow> [] | Some c \<Rightarrow> [c])"
    using Cons by simp
  have split: "multi_lines lt (log_label_type_stats (a # lts))
      = (if k = lt then [v] else []) @ multi_lines lt (log_label_type_stats lts)"
    by (simp add: a log_label_type_stats_def multi_lines_def multi_line_def)
  show ?case
  proof (cases "k = lt")
    case True
    then have "map_of lts lt = None"
      using Cons.prems by (simp add: a map_of_eq_None_iff)
    then show ?thesis using split ih by (simp add: True a)
  next
    case False
    then show ?thesis using split ih by (simp add: a)
  qed
qed

lemma label_lines_stats:
  "distinct (map fst ls) \<Longrightarrow>
   label_lines lt (concat (map (\<lambda>e. lines_of (fst e) (snd e)) ls))
     = (case map_of ls lt of None \<Rightarrow> [] | Some inner \<Rightarrow> sorted_reverse snd inner)"
proof (induction ls)
  case Nil
  then show ?case by (simp add: label_lines_def)
next
  case (Cons a ls)
  obtain k inner where a: "a = (k, inner)" by (cases a)
  have ih: "label_lines lt (concat (map (\<lambda>e. lines_of (fst e) (snd e)) ls))
     = (case map_of ls lt of None \<Rightarrow> [] | Some inner \<Rightarrow> sorted_reverse snd inner)"
    using Cons by simp
  show ?case
  proof (cases "k = lt")
    case True
    then have "map_of ls lt = None"
      using Cons.prems by (simp add: a map_of_eq_None_iff)
    then show ?thesis by (simp add: a True label_lines_append label_lines_of ih)
  next
    case False
    then show ?thesis by (simp add: a label_lines_append label_lines_of ih)
  qed
qed

lemma label_totals_stats:
  "distinct (map fst ls) \<Longrightarrow>
   label_totals lt (concat (map (\<lambda>e. lines_of (fst e) (snd e)) ls))
     = (case map_of ls lt of None \<Rightarrow> []
        | Some inner \<Rightarrow> replicate (length inner) (sum_list (map snd inner)))"
proof (induction ls)
  case Nil
  then show ?case by (simp add: label_totals_def)
next
  case (Cons a ls)
  obtain k inner where a: "a = (k, inner)" by (cases a)
  have ih: "label_totals lt (concat (map (\<lambda>e. lines_of (fst e) (snd e)) ls))
     = (case map_of ls lt of None \<Rightarrow> []
        | Some inner \<Rightarrow> replicate (length inner) (sum_list (map snd inner)))"
    using Cons by simp
  show ?case
  proof (cases "k = lt")
    case True
    then have "map_of ls lt = None"
      using Cons.prems by (simp add: a map_of_eq_None_iff)
    then show ?thesis by (simp add: a True label_totals_append label_totals_of ih)
  next
    case False
    then show ?thesis by (simp add: a label_totals_append label_totals_of ih)
  qed
qed

lemma multi_lines_stats: "multi_lines lt (concat (map (\<lambda>e. lines_of (fst e) (snd e)) ls)) = []"
  by (induction ls) (simp_all add: multi_lines_append multi_lines_of, simp add: multi_lines_def)

text \<open>The run of \<open>log_stats\<close> on a created inventory: it never raises, and what it logs.\<close>

lemma log_stats_run:
  assumes "data_inventory s = Some d"
  shows "\<exists>lg. log_stats s = Inr lg \<and>
     (\<forall>lt. label_lines lt lg = sorted_reverse snd (first_seen_counts (label_values d lt))
         \<and> label_totals lt lg =
             replicate (length (first_seen_counts (label_values d lt))) (length (label_values d lt))
         \<and> multi_lines lt lg =
             (if lt \<in> fst ` set (entries d) then [n_multi_entries d lt] else []))"
proof -
  let ?es = "entries d"
  let ?st = "fold tally ?es ([], [])"
  let ?ls = "fst ?st"
  let ?lts = "snd ?st"
  let ?lines = "concat (map (\<lambda>e. lines_of (fst e) (snd e)) ?ls)"
  let ?lg = "?lines @ log_label_type_stats ?lts"
  have first: "count_records d ([], []) = Inr (?ls, ?lts)"
    using count_records_fold[of "([], [])" d] by simp
  have ok: "snd e = [] \<or> 0 < sum_list (map snd (snd e))" if "e \<in> set ?ls" for e
    using stats_entry[OF that] fold_bump_loggable[of "type_labels ?es (fst e)"] by simp
  have second: "log_label_stats ?ls = Inr ?lines"
    by (rule log_label_stats_lines) (rule ok)
  have run: "log_stats s = Inr ?lg"
    using assms first second by (simp add: log_stats_def case_prod_beta)
  have d1: "distinct (map fst ?ls)" by (rule fold_tally_distinct) simp
  have d2: "distinct (map fst ?lts)" by (rule fold_tally_distinct2) simp
  have props: "label_lines lt ?lg = sorted_reverse snd (first_seen_counts (label_values d lt))
         \<and> label_totals lt ?lg =
             replicate (length (first_seen_counts (label_values d lt))) (length (label_values d lt))
         \<and> multi_lines lt ?lg =
             (if lt \<in> fst ` set (entries d) then [n_multi_entries d lt] else [])" for lt
  proof (cases "lt \<in> fst ` set ?es")
    case True
    have inner: "map_of ?ls lt = Some (first_seen_counts (label_values d lt))"
      using True by (simp add: fold_tally_fst fold_bump_counts first_seen_counts_def label_values_def)
    have total: "sum_list (map snd (first_seen_counts (label_values d lt))) = length (label_values d lt)"
      using sum_fold_bump[of "label_values d lt" "[]"]
      by (simp add: fold_bump_counts first_seen_counts_def)
    have m: "map_of ?lts lt = Some (n_multi_entries d lt)"
      using True by (simp add: fold_tally_snd n_multi_entries_def)
    show ?thesis
      using True
      by (simp add: label_lines_append label_lines_stats[OF d1] label_lines_multi inner
          label_totals_append label_totals_stats[OF d1] label_totals_multi total
          multi_lines_append multi_lines_stats multi_lines_multi[OF d2] m)
  next
    case False
    have inner: "map_of ?ls lt = None"
      using False by (simp add: fold_tally_fst)
    have none: "label_values d lt = []"
      using False by (simp add: label_values_def type_labels_def no_entry_filter)
    have m: "map_of ?lts lt = None"
      using False by (simp add: fold_tally_snd)
    show ?thesis
      using False
      by (simp add: label_lines_append label_lines_stats[OF d1] label_lines_multi inner
          label_totals_append label_totals_stats[OF d1] label_totals_multi none
          multi_lines_append multi_lines_stats multi_lines_multi[OF d2] m
          first_seen_counts_def first_seen_def sorted_reverse_def)
  qed
  show ?thesis
    using run props by blast
qed

lemma mset_sorted_reverse: "mset (sorted_reverse k xs) = mset xs"
  by (simp add: sorted_reverse_def)

lemma sorted_reverse_descending:
  "sorted_wrt (\<lambda>a b. k b \<le> k a) (sorted_reverse k xs)"
proof -
  have "sorted (map k (sort_key k (rev xs)))" by (rule sorted_sort_key)
  then have "sorted_wrt (\<lambda>a b. k a \<le> k b) (sort_key k (rev xs))"
    by (simp only: sorted_wrt_map)
  then show ?thesis
    by (simp only: sorted_reverse_def sorted_wrt_rev)
qed

lemma sorted_reverse_stable:
  "filter (\<lambda>e. k e = c) (sorted_reverse k xs) = filter (\<lambda>e. k e = c) xs"
proof -
  have "filter (\<lambda>e. k e = c) (sorted_reverse k xs) = rev (filter (\<lambda>e. k e = c) (sort_key k (rev xs)))"
    by (simp only: sorted_reverse_def rev_filter)
  also have "\<dots> = rev (filter (\<lambda>e. k e = c) (rev xs))"
    by (simp only: sort_key_stable)
  also have "\<dots> = filter (\<lambda>e. k e = c) xs"
    by (simp only: rev_filter rev_rev_ident)
  finally show ?thesis .
qed

lemma sum_sorted_reverse:
  fixes f :: "'a \<Rightarrow> nat"
  shows "sum_list (map f (sorted_reverse k xs)) = sum_list (map f xs)"
proof -
  have "sum_list (map f (sorted_reverse k xs)) = sum_mset (mset (map f (sorted_reverse k xs)))"
    by (simp only: sum_mset_sum_list)
  also have "mset (map f (sorted_reverse k xs)) = mset (map f xs)"
    by (simp add: mset_sorted_reverse)
  also have "sum_mset (mset (map f xs)) = sum_list (map f xs)"
    by (simp only: sum_mset_sum_list)
  finally show ?thesis .
qed

lemma sum_first_seen_counts: "sum_list (map snd (first_seen_counts labs)) = length labs"
  using sum_fold_bump[of labs "[]"] by (simp add: fold_bump_counts first_seen_counts_def)

lemma entries_Cons: "entries (r # d) = labels (snd r) @ entries d"
  by (simp add: entries_def)

lemma dict_filter_key:
  "distinct (map fst al) \<Longrightarrow>
   filter (\<lambda>e. fst e = k \<and> P (snd e)) al =
     (case map_of al k of None \<Rightarrow> [] | Some v \<Rightarrow> if P v then [(k, v)] else [])"
proof (induction al)
  case Nil
  then show ?case by simp
next
  case (Cons a al)
  obtain k' v' where a: "a = (k', v')" by (cases a)
  show ?case
  proof (cases "k' = k")
    case True
    then have "k \<notin> fst ` set al" using Cons.prems by (simp add: a)
    then have "filter (\<lambda>e. fst e = k \<and> P (snd e)) al = []"
      by (rule no_entry_filter(2))
    then show ?thesis by (simp add: a True)
  next
    case False
    then show ?thesis using Cons by (simp add: a)
  qed
qed

lemma multi_entries_records:
  "\<forall>r\<in>set d. distinct (map fst (labels (snd r))) \<Longrightarrow> n_multi_entries d lt = n_multi_records d lt"
proof (induction d)
  case Nil
  then show ?case by (simp add: n_multi_entries_def n_multi_records_def entries_def)
next
  case (Cons r d)
  have ih: "n_multi_entries d lt = n_multi_records d lt" using Cons by simp
  have dist: "distinct (map fst (labels (snd r)))" using Cons.prems by simp
  have one: "length (filter (\<lambda>e. fst e = lt \<and> 1 < length (snd e)) (labels (snd r)))
               = (if multi_label (snd r) lt then 1 else 0)"
    unfolding dict_filter_key[OF dist, of lt "\<lambda>ll. 1 < length ll"] multi_label_def
    by (simp split: option.splits)
  show ?case
    using ih one by (simp add: n_multi_entries_def n_multi_records_def entries_Cons)
qed

lemma multi_le_records: "n_multi_records d lt \<le> n_records_with d lt"
proof (induction d)
  case Nil
  then show ?case by (simp add: n_multi_records_def n_records_with_def)
next
  case (Cons r d)
  have "lt \<in> fst ` set (labels (snd r))" if "multi_label (snd r) lt"
  proof -
    from that obtain ll where "map_of (labels (snd r)) lt = Some ll"
      by (auto simp: multi_label_def split: option.splits)
    then show ?thesis by (metis map_of_eq_None_iff option.distinct(1))
  qed
  then show ?case
    using Cons by (auto simp: n_multi_records_def n_records_with_def)
qed

lemma single_label_values:
  assumes "\<forall>r\<in>set d. distinct (map fst (labels (snd r)))"
    and "\<forall>r\<in>set d. \<forall>ll. map_of (labels (snd r)) lt = Some ll \<longrightarrow> length ll = 1"
  shows "length (label_values d lt) = n_records_with d lt"
  using assms
proof (induction d)
  case Nil
  then show ?case by (simp add: label_values_def type_labels_def entries_def n_records_with_def)
next
  case (Cons r d)
  have ih: "length (label_values d lt) = n_records_with d lt" using Cons by simp
  have dist: "distinct (map fst (labels (snd r)))" using Cons.prems by simp
  have f: "filter (\<lambda>e. fst e = lt) (labels (snd r)) =
        (case map_of (labels (snd r)) lt of None \<Rightarrow> [] | Some v \<Rightarrow> [(lt, v)])"
    using dict_filter_key[OF dist, of lt "\<lambda>_. True"] by (simp split: option.splits)
  have one: "length (type_labels (labels (snd r)) lt) = (if lt \<in> fst ` set (labels (snd r)) then 1 else 0)"
  proof (cases "map_of (labels (snd r)) lt")
    case None
    then have "lt \<notin> fst ` set (labels (snd r))" by (simp add: map_of_eq_None_iff)
    then show ?thesis by (simp add: type_labels_def f None)
  next
    case (Some ll)
    then have "length ll = 1" using Cons.prems(2) by simp
    moreover have "lt \<in> fst ` set (labels (snd r))"
      using Some by (metis map_of_eq_None_iff option.distinct(1))
    ultimately show ?thesis by (simp add: type_labels_def f Some)
  qed
  have "label_values (r # d) lt = type_labels (labels (snd r)) lt @ label_values d lt"
    by (simp add: label_values_def type_labels_def entries_Cons)
  then show ?case
    using ih one by (simp add: n_records_with_def)
qed

text \<open>
  C4, as the code has it.  For a created inventory whose records are dictionaries,
  \<open>log_stats\<close> returns, and for every label type: the counts of its statistics lines
  sum to the number of label values that the records carry for the type, which is also
  the total printed on each line; a line on multiple labels gives the number of records
  with more than one label of the type, which is at most the number of records that
  carry the type; and when every record that carries the type has exactly one label for
  it, the counts sum to the number of these records.
\<close>

theorem label_statistics_sums:
  assumes "data_inventory s = Some d"
    and "\<forall>r\<in>set d. distinct (map fst (labels (snd r)))"
  shows "\<exists>lg. log_stats s = Inr lg \<and>
     (\<forall>lt. sum_list (map snd (label_lines lt lg)) = length (label_values d lt)
         \<and> (\<forall>t\<in>set (label_totals lt lg). t = length (label_values d lt))
         \<and> (\<forall>n\<in>set (multi_lines lt lg). n = n_multi_records d lt \<and> n \<le> n_records_with d lt)
         \<and> ((\<forall>r\<in>set d. \<forall>ll. map_of (labels (snd r)) lt = Some ll \<longrightarrow> length ll = 1)
              \<longrightarrow> sum_list (map snd (label_lines lt lg)) = n_records_with d lt))"
proof -
  from log_stats_run[OF assms(1)] obtain lg where run: "log_stats s = Inr lg"
    and lines: "\<And>lt. label_lines lt lg = sorted_reverse snd (first_seen_counts (label_values d lt))"
    and totals: "\<And>lt. label_totals lt lg =
             replicate (length (first_seen_counts (label_values d lt))) (length (label_values d lt))"
    and multi: "\<And>lt. multi_lines lt lg =
             (if lt \<in> fst ` set (entries d) then [n_multi_entries d lt] else [])"
    by blast
  have sums: "sum_list (map snd (label_lines lt lg)) = length (label_values d lt)" for lt
    by (simp only: lines sum_sorted_reverse sum_first_seen_counts)
  have tot: "\<forall>t\<in>set (label_totals lt lg). t = length (label_values d lt)" for lt
    by (simp add: totals)
  have mul: "\<forall>n\<in>set (multi_lines lt lg). n = n_multi_records d lt \<and> n \<le> n_records_with d lt" for lt
    using multi_entries_records[OF assms(2), of lt] multi_le_records[of d lt]
    by (simp add: multi)
  have single: "sum_list (map snd (label_lines lt lg)) = n_records_with d lt"
    if "\<forall>r\<in>set d. \<forall>ll. map_of (labels (snd r)) lt = Some ll \<longrightarrow> length ll = 1" for lt
    using single_label_values[OF assms(2) that] by (simp only: sums)
  show ?thesis
    using run sums tot mul single by blast
qed

text \<open>
  C6.  For a created inventory \<open>log_stats\<close> returns, and for every label type the
  statistics lines come in this order: the labels in the order of their first
  occurrence, each with its count, sorted by \<open>sorted_reverse\<close> on the count.  So the
  counts descend, the lines are the labels met with their counts, and the lines of equal
  count are in the order of first occurrence.
\<close>

theorem label_statistics_order:
  assumes "data_inventory s = Some d"
  shows "\<exists>lg. log_stats s = Inr lg \<and>
     (\<forall>lt. label_lines lt lg = sorted_reverse snd (first_seen_counts (label_values d lt))
         \<and> sorted_wrt (\<lambda>a b. snd b \<le> snd a) (label_lines lt lg)
         \<and> mset (label_lines lt lg) = mset (first_seen_counts (label_values d lt))
         \<and> (\<forall>c. filter (\<lambda>e. snd e = c) (label_lines lt lg)
                  = filter (\<lambda>e. snd e = c) (first_seen_counts (label_values d lt))))"
proof -
  from log_stats_run[OF assms(1)] obtain lg where run: "log_stats s = Inr lg"
    and lines: "\<And>lt. label_lines lt lg = sorted_reverse snd (first_seen_counts (label_values d lt))"
    by blast
  have desc: "sorted_wrt (\<lambda>a b. snd b \<le> snd a) (label_lines lt lg)" for lt
    unfolding lines by (rule sorted_reverse_descending)
  have perm: "mset (label_lines lt lg) = mset (first_seen_counts (label_values d lt))" for lt
    unfolding lines by (rule mset_sorted_reverse)
  have ties: "filter (\<lambda>e. snd e = c) (label_lines lt lg)
                  = filter (\<lambda>e. snd e = c) (first_seen_counts (label_values d lt))" for lt c
    unfolding lines by (rule sorted_reverse_stable)
  show ?thesis
    using run lines desc perm ties by blast
qed

lemma log_stats_inv3: "log_stats inv3 = Inr lg3"
  by code_simp

lemma log_stats_inv_abc: "log_stats inv_abc = Inr lg_abc"
  by code_simp

lemma values_d3:
  "length (label_values d3 ''species'') = 4"
  "n_multi_records d3 ''species'' = 1"
  "n_records_with d3 ''species'' = 3"
  by code_simp+

theorem label_statistics_sums_witness:
  "log_stats inv3 = Inr lg3
   \<and> sum_list (map snd (label_lines ''species'' lg3)) = length (label_values d3 ''species'')
   \<and> length (label_values d3 ''species'') = 4
   \<and> multi_lines ''species'' lg3 = [n_multi_records d3 ''species'']
   \<and> n_multi_records d3 ''species'' = 1
   \<and> n_records_with d3 ''species'' = 3"
proof -
  have h1: "data_inventory inv3 = Some d3" by (simp add: inv3_def)
  have h2: "\<forall>r\<in>set d3. distinct (map fst (labels (snd r)))" by (simp add: d3_def)
  from label_statistics_sums[OF h1 h2] obtain lg where run: "log_stats inv3 = Inr lg"
    and sums: "sum_list (map snd (label_lines ''species'' lg)) = length (label_values d3 ''species'')"
    by blast
  have lg: "lg = lg3" using run log_stats_inv3 by simp
  have multi: "multi_lines ''species'' lg3 = [n_multi_records d3 ''species'']"
    by code_simp
  show ?thesis
    using log_stats_inv3 sums multi values_d3 by (simp only: lg simp_thms)
qed

text \<open>
  C4, as stated, fails: for the three records labelled cat, dog and cat with dog, the
  counts are cat: 2 and dog: 2 and sum to 4, while 3 records carry the label type.
\<close>

theorem label_statistics_sums_counterexample:
  "log_stats inv3 = Inr lg3
   \<and> sum_list (map snd (label_lines ''species'' lg3)) = 4
   \<and> n_records_with d3 ''species'' = 3
   \<and> sum_list (map snd (label_lines ''species'' lg3)) \<noteq> n_records_with d3 ''species''"
  by code_simp

lemma counts_abc:
  "first_seen_counts (label_values d_abc ''kind'') = [(''a'', 5), (''b'', 9), (''c'', 9)]"
  by code_simp

lemma sorted_abc:
  "sorted_reverse snd [(''a'', 5 :: nat), (''b'', 9), (''c'', 9)] = [(''b'', 9), (''c'', 9), (''a'', 5)]"
  by code_simp

text \<open>The example of the counts a: 5, b: 9, c: 9 met in the order a, b, c: the lines are b, c, a.\<close>

theorem label_statistics_order_witness:
  "log_stats inv_abc = Inr lg_abc
   \<and> first_seen_counts (label_values d_abc ''kind'') = [(''a'', 5), (''b'', 9), (''c'', 9)]
   \<and> label_lines ''kind'' lg_abc = [(''b'', 9), (''c'', 9), (''a'', 5)]"
proof -
  have h1: "data_inventory inv_abc = Some d_abc" by (simp add: inv_abc_def)
  from label_statistics_order[OF h1] obtain lg where run: "log_stats inv_abc = Inr lg"
    and lines: "label_lines ''kind'' lg = sorted_reverse snd (first_seen_counts (label_values d_abc ''kind''))"
    by blast
  have lg: "lg = lg_abc" using run log_stats_inv_abc by simp
  have "label_lines ''kind'' lg_abc = [(''b'', 9), (''c'', 9), (''a'', 5)]"
    using lines by (simp only: lg counts_abc sorted_abc)
  then show ?thesis
    using log_stats_inv_abc counts_abc by (simp only: simp_thms)
qed

text \<open>The same example on the second loop alone, started on the dictionary of counts.\<close>

lemma abc_second_loop:
  "log_label_type ''kind'' [(''a'', 5), (''b'', 9), (''c'', 9)] =
     Inr [(INFO, LabelTypeLabelRecords ''kind'' ''b'' 9 23),
          (INFO, LabelTypeLabelRecords ''kind'' ''c'' 9 23),
          (INFO, LabelTypeLabelRecords ''kind'' ''a'' 5 23)]"
  by code_simp

section \<open>Merging the image-processing configuration\<close>

lemma overwrite_parameters_overrides:
  "\<forall>k\<in>set ks. args k \<noteq> None \<Longrightarrow>
   overwrite_parameters ks args ip = Inr (ip ++ user_overrides ks args)"
proof (induction ks arbitrary: ip)
  case Nil
  have "user_overrides [] args = Map.empty"
    by (rule ext) (simp add: user_overrides_def)
  then show ?case by simp
next
  case (Cons k ks)
  then obtain v where v: "args k = Some v" by auto
  have rest: "\<forall>k\<in>set ks. args k \<noteq> None" using Cons.prems by simp
  show ?case
  proof (cases "v = PyNone")
    case True
    have "overwrite_parameters (k # ks) args ip = overwrite_parameters ks args ip"
      using v True by simp
    also have "\<dots> = Inr (ip ++ user_overrides ks args)"
      by (rule Cons.IH[OF rest])
    also have "ip ++ user_overrides ks args = ip ++ user_overrides (k # ks) args"
      by (rule ext) (auto simp: map_add_def user_overrides_def v True split: option.splits)
    finally show ?thesis .
  next
    case False
    have "overwrite_parameters (k # ks) args ip = overwrite_parameters ks args (ip(k \<mapsto> v))"
      using v False by simp
    also have "\<dots> = Inr (ip(k \<mapsto> v) ++ user_overrides ks args)"
      by (rule Cons.IH[OF rest])
    also have "ip(k \<mapsto> v) ++ user_overrides ks args = ip ++ user_overrides (k # ks) args"
      by (rule ext) (auto simp: map_add_def user_overrides_def v False split: option.splits)
    finally show ?thesis .
  qed
qed

text \<open>
  C1, as the code has it.  With the model known to the configuration and the nine
  options present in \<open>args\<close>, the merge never raises and its layers are, from lowest to
  highest priority: the defaults of the model, the built-in defaults, the user overrides.
  So a key takes the user's value when one was given, else the built-in default when
  there is one, and the value of the model only when the built-in defaults lack the key.
\<close>

theorem merge_priority:
  assumes "args ''model'' = Some (PyStr name)"
    and "cfg_models config name = Some image_processing_model"
    and "\<forall>k\<in>set to_overwrite. args k \<noteq> None"
  shows "merge_image_processing config args =
           Inr (image_processing_model ++ (cfg_image_processing config ++ user_overrides to_overwrite args))
       \<and> effective_value config args k =
           Inr (case user_overrides to_overwrite args k of
                  Some v \<Rightarrow> Some v
                | None \<Rightarrow> (case cfg_image_processing config k of
                              Some v \<Rightarrow> Some v
                            | None \<Rightarrow> image_processing_model k))"
proof -
  have m: "merge_image_processing config args =
           Inr (image_processing_model ++ (cfg_image_processing config ++ user_overrides to_overwrite args))"
    using assms(1,2) overwrite_parameters_overrides[OF assms(3)]
    by (simp add: merge_image_processing_def)
  then show ?thesis
    by (simp add: effective_value_def map_add_def split: option.splits)
qed

lemma args1_keys: "\<forall>k\<in>set to_overwrite. args1 k \<noteq> None"
  by (simp add: args1_def all_none_def to_overwrite_def)

lemma args2_keys: "\<forall>k\<in>set to_overwrite. args2 k \<noteq> None"
  by (simp add: args2_def args1_def all_none_def to_overwrite_def)

theorem merge_priority_witness:
  "effective_value cfg1 args1 ''color_augmentation'' = Inr (Some (PyStr ''full_randomized''))
   \<and> effective_value cfg1 args1 ''output_width'' = Inr (Some (PyInt 50))
   \<and> effective_value cfg1 args2 ''image_choice_for_sets'' = Inr (Some (PyStr ''grayscale_stacking''))"
  using merge_priority[of args1 "''small_cnn''" cfg1 _ "''color_augmentation''", OF _ _ args1_keys]
        merge_priority[of args1 "''small_cnn''" cfg1 _ "''output_width''", OF _ _ args1_keys]
        merge_priority[of args2 "''small_cnn''" cfg1 _ "''image_choice_for_sets''", OF _ _ args2_keys]
  by (simp add: cfg1_def args1_def args2_def all_none_def to_overwrite_def user_overrides_def)

text \<open>
  C1, as stated, fails: with \<open>color_augmentation\<close> set to \<open>full_randomized\<close> by the
  built-in defaults and to \<open>little\<close> by the model, and no override by the user, the
  effective value is the built-in one.
\<close>

theorem merge_model_value_counterexample:
  "cfg_image_processing cfg1 ''color_augmentation'' = Some (PyStr ''full_randomized'')
   \<and> map_option (\<lambda>m. m ''color_augmentation'') (cfg_models cfg1 ''small_cnn'') = Some (Some (PyStr ''little''))
   \<and> args1 ''color_augmentation'' = Some PyNone
   \<and> effective_value cfg1 args1 ''color_augmentation'' = Inr (Some (PyStr ''full_randomized''))
   \<and> effective_value cfg1 args1 ''color_augmentation'' \<noteq> Inr (Some (PyStr ''little''))"
  by (simp add: effective_value_def merge_image_processing_def cfg1_def args1_def all_none_def
      to_overwrite_def)

section \<open>Grayscale stacking and colour augmentation\<close>

text \<open>
  C8.  Let \<open>ip\<close> be the merged configuration.  When its \<open>image_choice_for_sets\<close> is
  \<open>grayscale_stacking\<close> and \<open>color_augmentation\<close> has a value, the effective
  \<open>color_augmentation\<close> is \<open>None\<close> and everything else is as merged; the override is
  logged exactly when the merged value was not \<open>None\<close> already.  For any other
  \<open>image_choice_for_sets\<close> the merged configuration is the effective one and nothing is
  logged.
\<close>

theorem grayscale_stacking_color_augmentation:
  assumes "merge_image_processing config args = Inr ip"
  shows "(ip ''image_choice_for_sets'' = Some (PyStr ''grayscale_stacking'')
            \<and> ip ''color_augmentation'' = Some aug \<longrightarrow>
          configure config args =
            Inr (ip(''color_augmentation'' \<mapsto> PyNone),
                 if aug \<noteq> PyNone then [(INFO, DisablingColorAugmentation)] else []))
       \<and> (ip ''image_choice_for_sets'' = Some choice
            \<and> choice \<noteq> PyStr ''grayscale_stacking'' \<longrightarrow>
          configure config args = Inr (ip, []))"
proof -
  have a: "configure config args = disable_color_augmentation ip"
    using assms by (simp add: configure_def)
  have b: "ip(''color_augmentation'' \<mapsto> PyNone) = ip" if "ip ''color_augmentation'' = Some PyNone"
    using that by (rule map_upd_triv)
  show ?thesis
    unfolding a disable_color_augmentation_def using b by auto
qed

lemma merged2: "merge_image_processing cfg1 args2 =
   Inr ([''color_augmentation'' \<mapsto> PyStr ''full_randomized'',
         ''output_width'' \<mapsto> PyInt 50,
         ''image_choice_for_sets'' \<mapsto> PyStr ''grayscale_stacking''])"
  unfolding merge_image_processing_def cfg1_def args2_def args1_def all_none_def to_overwrite_def
  by (auto simp: map_add_def fun_eq_iff)

lemma merged1: "merge_image_processing cfg1 args1 =
   Inr ([''color_augmentation'' \<mapsto> PyStr ''full_randomized'',
         ''output_width'' \<mapsto> PyInt 50,
         ''image_choice_for_sets'' \<mapsto> PyStr ''random''])"
  unfolding merge_image_processing_def cfg1_def args1_def all_none_def to_overwrite_def
  by (auto simp: map_add_def fun_eq_iff)

lemma merged3: "merge_image_processing cfg1 args3 =
   Inr ([''color_augmentation'' \<mapsto> PyStr ''little'',
         ''output_width'' \<mapsto> PyInt 50,
         ''image_choice_for_sets'' \<mapsto> PyStr ''grayscale_stacking''])"
  unfolding merge_image_processing_def cfg1_def args3_def args2_def args1_def all_none_def
    to_overwrite_def
  by (auto simp: map_add_def fun_eq_iff)

theorem grayscale_stacking_color_augmentation_witness:
  "configure cfg1 args2 =
     Inr ([''color_augmentation'' \<mapsto> PyNone,
           ''output_width'' \<mapsto> PyInt 50,
           ''image_choice_for_sets'' \<mapsto> PyStr ''grayscale_stacking''],
          [(INFO, DisablingColorAugmentation)])
   \<and> configure cfg1 args3 =
     Inr ([''color_augmentation'' \<mapsto> PyNone,
           ''output_width'' \<mapsto> PyInt 50,
           ''image_choice_for_sets'' \<mapsto> PyStr ''grayscale_stacking''],
          [(INFO, DisablingColorAugmentation)])
   \<and> configure cfg1 args1 =
     Inr ([''color_augmentation'' \<mapsto> PyStr ''full_randomized'',
           ''output_width'' \<mapsto> PyInt 50,
           ''image_choice_for_sets'' \<mapsto> PyStr ''random''], [])"
  using grayscale_stacking_color_augmentation[OF merged2, of "PyStr ''full_randomized''" PyNone]
        grayscale_stacking_color_augmentation[OF merged3, of "PyStr ''little''" PyNone]
        grayscale_stacking_color_augmentation[OF merged1, of PyNone "PyStr ''random''"]
  by (auto simp: fun_eq_iff)

section \<open>The optional prediction on test data\<close>

text \<open>
  C3.  Without \<open>-test_tfr_path\<close> on the command line, \<open>args['test_tfr_path']\<close> is
  \<open>None\<close> and the test \<open>len(args['test_tfr_path']) > 0\<close> raises \<open>TypeError\<close>: the
  best model has been copied, the prediction is not entered (the result does not depend
  on its stages), and \<open>main\<close> ends with the exception.
\<close>

theorem no_test_path_raises:
  "save_best_model_and_predict copy_best find_files predict (args_test None) w1 =
     (Some TypeError,
      \<lparr>files = [''best_model.hdf5'' \<mapsto> ''model_best''], writable = (\<lambda>p. True),
       logged = [(INFO, SavingBestModel)]\<rparr>)"
  by (simp add: save_best_model_and_predict_def copy_best_def args_test_def
      parse_test_tfr_path_def py_len_def logging_def w1_def)

text \<open>
  With the empty string as path the prediction is skipped without an exception; with a
  path, an exception of the prediction leaves the copied best model in place.
\<close>

lemma empty_test_path_skips:
  "save_best_model_and_predict copy_best find_files predict (args_test (Some [])) w1 =
     (None,
      \<lparr>files = [''best_model.hdf5'' \<mapsto> ''model_best''], writable = (\<lambda>p. True),
       logged = [(INFO, SavingBestModel)]\<rparr>)"
  by (simp add: save_best_model_and_predict_def copy_best_def args_test_def
      parse_test_tfr_path_def py_len_def logging_def w1_def)

lemma predict_failure_keeps_files:
  "save_best_model_and_predict copy_best find_none predict (args_test (Some ''tfr/'')) w1 =
     (Some IOError,
      \<lparr>files = [''best_model.hdf5'' \<mapsto> ''model_best''], writable = (\<lambda>p. True),
       logged = [(INFO, SavingBestModel), (INFO, StartingToPredict)]\<rparr>)"
  by (simp add: save_best_model_and_predict_def copy_best_def args_test_def find_none_def
      parse_test_tfr_path_def py_len_def logging_def w1_def predict_and_export_def)

end
